theory Spec2Isabelle
  imports Main "HOL-Library.Word"
begin

section \<open>lognowrap: a viewer of ANSI-coloured lines without wrapping\<close>

text \<open>
  A shallow embedding of \<^verbatim>\<open>lognowrap.py\<close>. A Python \<^verbatim>\<open>str\<close> is a sequence of Unicode
  code points, modelled as a list of naturals; a \<^verbatim>\<open>bytes\<close> value is a list of 8-bit
  words. Python's integers are \<^typ>\<open>int\<close>; indices that the code only ever counts upwards
  from zero are \<^typ>\<open>nat\<close>.
\<close>

type_synonym codepoint = nat
type_synonym pystr = "codepoint list"
type_synonym byte = "8 word"

definition str :: "string \<Rightarrow> pystr" where
  \<comment> \<open>An ASCII literal as a Python string.\<close>
  "str s = map of_char s"

definition ESC :: codepoint where
  "ESC = 0x1b"

definition MAX_LINE_BYTES :: nat where
  "MAX_LINE_BYTES = 1024 * 1024"

definition substr :: "'a list \<Rightarrow> nat \<Rightarrow> nat \<Rightarrow> 'a list" where
  \<comment> \<open>The slice \<^verbatim>\<open>xs[a:b]\<close> for indices \<^verbatim>\<open>0 <= a\<close>, \<^verbatim>\<open>0 <= b\<close>; Python clips \<^verbatim>\<open>b\<close> at the length.\<close>
  "substr xs a b = take (b - a) (drop a xs)"

subsection \<open>The tokenizer: \<^verbatim>\<open>_consume_ansi\<close> and \<^verbatim>\<open>_iter_tokens\<close>\<close>

text \<open>The scanning loop of the CSI branch, \<^verbatim>\<open>ESC [\<close>: up to and including a final byte
  in \<^verbatim>\<open>'@'..'~'\<close>, or to the end of the line.\<close>

function csi_loop :: "pystr \<Rightarrow> nat \<Rightarrow> nat \<Rightarrow> pystr \<times> nat" where
  "csi_loop line start i =
     (if i < length line then
        (if 0x40 \<le> line ! i \<and> line ! i \<le> 0x7e then (substr line start (i + 1), i + 1)
         else csi_loop line start (i + 1))
      else (drop start line, length line))"
  by pat_completeness auto
termination
  by (relation "measure (\<lambda>(line, start, i). length line - i)") auto

text \<open>The scanning loop of the OSC branch, \<^verbatim>\<open>ESC ]\<close>: up to and including a bell or the
  two characters \<^verbatim>\<open>ESC \\<close>, or to the end of the line.\<close>

function osc_loop :: "pystr \<Rightarrow> nat \<Rightarrow> nat \<Rightarrow> pystr \<times> nat" where
  "osc_loop line start i =
     (if i < length line then
        (if line ! i = 0x07 then (substr line start (i + 1), i + 1)
         else if line ! i = ESC \<and> i + 1 < length line \<and> line ! (i + 1) = 0x5c
           then (substr line start (i + 2), i + 2)
         else osc_loop line start (i + 1))
      else (drop start line, length line))"
  by pat_completeness auto
termination
  by (relation "measure (\<lambda>(line, start, i). length line - i)") auto

declare csi_loop.simps [simp del] osc_loop.simps [simp del]

definition consume_ansi :: "pystr \<Rightarrow> nat \<Rightarrow> pystr \<times> nat" where
  \<comment> \<open>Called with \<^verbatim>\<open>line[start] == ESC\<close>, so \<^verbatim>\<open>start < len(line)\<close>. The characters
      \<^verbatim>\<open>[ ] ( ) # %\<close> are 0x5b, 0x5d, 0x28, 0x29, 0x23, 0x25.\<close>
  "consume_ansi line start =
     (if start + 1 \<ge> length line then ([line ! start], start + 1)
      else
        let nxt = line ! (start + 1) in
        if nxt = 0x5b then csi_loop line start (start + 2)
        else if nxt = 0x5d then osc_loop line start (start + 2)
        else if nxt \<in> set [0x28, 0x29, 0x23, 0x25] then
          (if start + 2 < length line then (substr line start (start + 3), start + 3)
           else (drop start line, length line))
        else (substr line start (start + 2), start + 2))"

text \<open>The generator yields pairs \<^verbatim>\<open>(True, seq)\<close> for an escape sequence and
  \<^verbatim>\<open>(False, line[i])\<close> for a single character: a tagged union.\<close>

datatype token = Ansi pystr | Chr codepoint

fun raw :: "token \<Rightarrow> pystr" where
  "raw (Ansi seq) = seq"
| "raw (Chr c) = [c]"

lemma csi_loop_index:
  "i \<le> length line \<Longrightarrow> i \<le> snd (csi_loop line start i) \<and> snd (csi_loop line start i) \<le> length line"
proof (induction line start i rule: csi_loop.induct)
  case (1 line start i)
  then show ?case
    by (subst (1 2) csi_loop.simps) auto
qed

lemma osc_loop_index:
  "i \<le> length line \<Longrightarrow> i \<le> snd (osc_loop line start i) \<and> snd (osc_loop line start i) \<le> length line"
proof (induction line start i rule: osc_loop.induct)
  case (1 line start i)
  then show ?case
    by (subst (1 2) osc_loop.simps) auto
qed

lemma consume_ansi_index:
  assumes "start < length line"
  shows "start < snd (consume_ansi line start) \<and> snd (consume_ansi line start) \<le> length line"
proof (cases "start + 1 \<ge> length line")
  case True
  with assms show ?thesis by (simp add: consume_ansi_def)
next
  case False
  then have le: "start + 2 \<le> length line" by simp
  from csi_loop_index [OF le, of start] osc_loop_index [OF le, of start] False
  show ?thesis
    by (auto simp: consume_ansi_def Let_def)
qed

function iter_tokens_from :: "pystr \<Rightarrow> nat \<Rightarrow> token list" where
  "iter_tokens_from line i =
     (if i < length line then
        (if line ! i = ESC then
           Ansi (fst (consume_ansi line i)) # iter_tokens_from line (snd (consume_ansi line i))
         else Chr (line ! i) # iter_tokens_from line (i + 1))
      else [])"
  by pat_completeness auto
termination
proof (relation "measure (\<lambda>(line, i). length line - i)")
  show "wf (measure (\<lambda>(line, i). length line - i))" by simp
next
  fix line :: pystr and i :: nat
  assume "i < length line"
  with consume_ansi_index [of i line]
  show "((line, snd (consume_ansi line i)), (line, i)) \<in> measure (\<lambda>(line, i). length line - i)"
    by auto
next
  fix line :: pystr and i :: nat
  assume "i < length line"
  then show "((line, i + 1), (line, i)) \<in> measure (\<lambda>(line, i). length line - i)"
    by auto
qed

declare iter_tokens_from.simps [simp del]

definition iter_tokens :: "pystr \<Rightarrow> token list" where
  "iter_tokens line = iter_tokens_from line 0"

subsection \<open>Character widths: \<^verbatim>\<open>_char_width\<close> and \<^verbatim>\<open>visible_width\<close>\<close>

text \<open>
  \<^verbatim>\<open>_char_width\<close> reads tables that are not part of the program: the optional module
  \<^verbatim>\<open>wcwidth\<close> (absent when its import failed) and Python's \<^verbatim>\<open>unicodedata\<close>. They are
  parameters of the model, collected in a record.
\<close>

record unicode_env =
  wcwidth :: "(codepoint \<Rightarrow> int) option"
  combining :: "codepoint \<Rightarrow> nat"
  category :: "codepoint \<Rightarrow> string"
  east_asian_width :: "codepoint \<Rightarrow> string"

definition char_width :: "unicode_env \<Rightarrow> codepoint \<Rightarrow> int" where
  "char_width env ch =
     (case wcwidth env of
        None \<Rightarrow>
          (let code = ch in
           if code < 0x20 \<or> (0x7f \<le> code \<and> code < 0xa0) then 0
           else if combining env ch \<noteq> 0 \<or> category env ch = ''Cf'' then 0
           else
             let east = east_asian_width env ch in
             if east \<in> set [''W'', ''F''] then 2 else 1)
      | Some wcw \<Rightarrow>
          (let width = wcw ch in
           if width < 0 then 0 else width))"

fun visible_loop :: "unicode_env \<Rightarrow> token list \<Rightarrow> int \<Rightarrow> int" where
  "visible_loop env [] width = width"
| "visible_loop env (Ansi seq # ts) width = visible_loop env ts width"
| "visible_loop env (Chr c # ts) width = visible_loop env ts (width + char_width env c)"

definition visible_width :: "unicode_env \<Rightarrow> pystr \<Rightarrow> int" where
  "visible_width env line = visible_loop env (iter_tokens line) 0"

subsection \<open>The slicer: \<^verbatim>\<open>slice_ansi\<close>\<close>

record slice_state =
  pos :: int
  visible :: int
  started :: bool
  prefix :: pystr
  out :: "pystr list"

definition slice_init :: slice_state where
  "slice_init = \<lparr>pos = 0, visible = 0, started = False, prefix = [], out = []\<rparr>"

definition start_window :: "slice_state \<Rightarrow> slice_state" where
  \<comment> \<open>\<^verbatim>\<open>if not started: started = True; if prefix: out.append(prefix)\<close>\<close>
  "start_window s =
     (if \<not> started s then
        (if prefix s \<noteq> [] then s\<lparr>started := True, out := out s @ [prefix s]\<rparr>
         else s\<lparr>started := True\<rparr>)
      else s)"

definition emit_char :: "codepoint \<Rightarrow> int \<Rightarrow> slice_state \<Rightarrow> slice_state" where
  \<comment> \<open>\<^verbatim>\<open>out.append(token); pos += w; visible += w\<close>\<close>
  "emit_char c w s = s\<lparr>out := out s @ [[c]], pos := pos s + w, visible := visible s + w\<rparr>"

text \<open>The \<^verbatim>\<open>for\<close> loop over the tokens; \<^verbatim>\<open>break\<close> returns the state at once.\<close>

fun slice_loop :: "unicode_env \<Rightarrow> int \<Rightarrow> int \<Rightarrow> token list \<Rightarrow> slice_state \<Rightarrow> slice_state" where
  "slice_loop env start_col width [] s = s"
| "slice_loop env start_col width (Ansi seq # ts) s =
     (if \<not> started s then slice_loop env start_col width ts (s\<lparr>prefix := prefix s @ seq\<rparr>)
      else slice_loop env start_col width ts (s\<lparr>out := out s @ [seq]\<rparr>))"
| "slice_loop env start_col width (Chr c # ts) s =
     (let w = char_width env c in
      if w \<le> 0 then
        (if started s then slice_loop env start_col width ts (s\<lparr>out := out s @ [[c]]\<rparr>)
         else slice_loop env start_col width ts s)
      else if pos s + w \<le> start_col then
        slice_loop env start_col width ts (s\<lparr>pos := pos s + w\<rparr>)
      else
        let s' = emit_char c w (start_window s) in
        if visible s' \<ge> width then s'
        else slice_loop env start_col width ts s')"

definition reset :: pystr where
  \<comment> \<open>\<^verbatim>\<open>ESC + "[0m"\<close>\<close>
  "reset = ESC # str ''[0m''"

definition slice_ansi :: "unicode_env \<Rightarrow> pystr \<Rightarrow> int \<Rightarrow> int \<Rightarrow> pystr" where
  "slice_ansi env line start_col width =
     (if width \<le> 0 then []
      else
        let s = slice_loop env start_col width (iter_tokens line) slice_init in
        if \<not> started s then []
        else concat (out s @ [reset]))"

text \<open>
  An excerpt of the Unicode character database, for evaluating the program on concrete
  lines: the ASCII range, U+0301 COMBINING ACUTE ACCENT (canonical combining class 230,
  category Mn, East Asian width A) and U+4E00, a CJK unified ideograph (category Lo, East
  Asian width W). Every other code point is reported as unassigned. The module
  \<^verbatim>\<open>wcwidth\<close> is absent, as after a failed import.
\<close>

definition ascii_category :: "codepoint \<Rightarrow> string" where
  "ascii_category c =
     (if c < 0x20 \<or> c = 0x7f then ''Cc''
      else if c = 0x20 then ''Zs''
      else if 0x30 \<le> c \<and> c \<le> 0x39 then ''Nd''
      else if 0x41 \<le> c \<and> c \<le> 0x5a then ''Lu''
      else if 0x61 \<le> c \<and> c \<le> 0x7a then ''Ll''
      else if c \<in> set [0x24] then ''Sc''
      else if c \<in> set [0x28, 0x5b, 0x7b] then ''Ps''
      else if c \<in> set [0x29, 0x5d, 0x7d] then ''Pe''
      else if c \<in> set [0x2b, 0x3c, 0x3d, 0x3e, 0x7c, 0x7e] then ''Sm''
      else if c = 0x2d then ''Pd''
      else if c \<in> set [0x5e, 0x60] then ''Sk''
      else if c = 0x5f then ''Pc''
      else ''Po'')"

definition sample_env :: unicode_env where
  "sample_env =
     \<lparr>wcwidth = None,
      combining = (\<lambda>c. if c = 0x301 then 230 else 0),
      category = (\<lambda>c. if c < 0x80 then ascii_category c
                       else if c = 0x301 then ''Mn''
                       else if c = 0x4e00 then ''Lo''
                       else ''Cn''),
      east_asian_width = (\<lambda>c. if 0x20 \<le> c \<and> c < 0x7f then ''Na''
                               else if c = 0x301 then ''A''
                               else if c = 0x4e00 then ''W''
                               else ''N'')\<rparr>"

definition ascii_ok :: "unicode_env \<Rightarrow> bool" where
  \<comment> \<open>What the tables say of printable ASCII, U+0020 to U+007E: not combining, not a
      format character, not wide; \<^verbatim>\<open>wcwidth\<close>, when present, gives one column.\<close>
  "ascii_ok env =
     (\<forall>c \<in> set [0x20 ..< 0x7f].
        (case wcwidth env of
           None \<Rightarrow> combining env c = 0 \<and> category env c \<noteq> ''Cf''
                    \<and> east_asian_width env c \<notin> set [''W'', ''F'']
         | Some wcw \<Rightarrow> wcw c = 1))"

definition hello_world :: pystr where
  \<comment> \<open>The line \<^verbatim>\<open>"\x1b[31mHELLO\x1b[0m WORLD"\<close>.\<close>
  "hello_world = ESC # str ''[31mHELLO'' @ ESC # str ''[0m WORLD''"

subsection \<open>The key decoder: \<^verbatim>\<open>parse_keys\<close>\<close>

definition startswith :: "byte list \<Rightarrow> byte list \<Rightarrow> nat \<Rightarrow> bool" where
  \<comment> \<open>\<^verbatim>\<open>buf.startswith(p, i)\<close>\<close>
  "startswith buf p i = (take (length p) (drop i buf) = p)"

text \<open>The inner loop of the generic CSI branch: skip to the first byte in
  \<^verbatim>\<open>0x40..0x7e\<close>.\<close>

function scan_final :: "byte list \<Rightarrow> nat \<Rightarrow> nat" where
  "scan_final buf j =
     (if j < length buf \<and> \<not> (0x40 \<le> buf ! j \<and> buf ! j \<le> 0x7e) then scan_final buf (j + 1)
      else j)"
  by pat_completeness auto
termination
  by (relation "measure (\<lambda>(buf, j). length buf - j)") auto

declare scan_final.simps [simp del]

lemma scan_final_ge: "j \<le> scan_final buf j"
proof (induction buf j rule: scan_final.induct)
  case (1 buf j)
  then show ?case
    by (subst scan_final.simps) (auto simp: Suc_leD)
qed

text \<open>The outer loop. \<^verbatim>\<open>break\<close> leaves it with the index unchanged; the actions are
  the strings the program appends.\<close>

function parse_loop :: "byte list \<Rightarrow> nat \<Rightarrow> string list \<Rightarrow> string list \<times> nat" where
  "parse_loop buf i actions =
     (if i < length buf then
        (if buf ! i \<noteq> 0x1b then
           parse_loop buf (i + 1) (if buf ! i = 0x03 then actions @ [''quit''] else actions)
         else if startswith buf [0x1b, 0x5b, 0x43] i then
           parse_loop buf (i + 3) (actions @ [''right''])
         else if startswith buf [0x1b, 0x5b, 0x44] i then
           parse_loop buf (i + 3) (actions @ [''left''])
         else if startswith buf [0x1b, 0x4f, 0x43] i then
           parse_loop buf (i + 3) (actions @ [''right''])
         else if startswith buf [0x1b, 0x4f, 0x44] i then
           parse_loop buf (i + 3) (actions @ [''left''])
         else if i + 1 < length buf \<and> buf ! (i + 1) = 0x5b then
           (if scan_final buf (i + 2) < length buf then
              parse_loop buf (scan_final buf (i + 2) + 1)
                (if buf ! scan_final buf (i + 2) = 0x43 then actions @ [''right'']
                 else if buf ! scan_final buf (i + 2) = 0x44 then actions @ [''left'']
                 else actions)
            else (actions, i))
         else parse_loop buf (i + 1) actions)
      else (actions, i))"
  by pat_completeness auto
termination
proof (relation "measure (\<lambda>(buf, i, actions). length buf - i)", goal_cases)
  case (7 buf i actions)
  with scan_final_ge [of "i + 2" buf] show ?case by auto
qed auto

declare parse_loop.simps [simp del]

definition parse_keys :: "byte list \<Rightarrow> string list \<times> byte list" where
  "parse_keys buf = (case parse_loop buf 0 [] of (actions, i) \<Rightarrow> (actions, drop i buf))"

subsection \<open>The line buffer: a bounded \<^verbatim>\<open>collections.deque\<close>\<close>

text \<open>
  The buffer is Python's \<^verbatim>\<open>collections.deque\<close> with a \<^verbatim>\<open>maxlen\<close>: \<^verbatim>\<open>append\<close> adds on the
  right and, when the length then exceeds \<^verbatim>\<open>maxlen\<close>, removes one item on the left;
  \<^verbatim>\<open>deque(iterable, maxlen)\<close> appends the items in order to an empty deque, and raises
  \<^verbatim>\<open>ValueError\<close> for a negative \<^verbatim>\<open>maxlen\<close>.
\<close>

datatype py_error = ValueError

record 'a deque =
  items :: "'a list"
  maxlen :: nat

definition deque_new :: "nat \<Rightarrow> 'a deque" where
  "deque_new n = \<lparr>items = [], maxlen = n\<rparr>"

definition deque_append :: "'a deque \<Rightarrow> 'a \<Rightarrow> 'a deque" where
  "deque_append d x =
     (let xs = items d @ [x] in
      if maxlen d < length xs then d\<lparr>items := tl xs\<rparr> else d\<lparr>items := xs\<rparr>)"

definition deque_make :: "'a list \<Rightarrow> int \<Rightarrow> py_error + 'a deque" where
  "deque_make xs n =
     (if n < 0 then Inl ValueError else Inr (foldl deque_append (deque_new (nat n)) xs))"

definition get_term_size :: "(int \<times> int) option \<Rightarrow> int \<times> int" where
  \<comment> \<open>The argument is what \<^verbatim>\<open>os.get_terminal_size\<close> gives, columns and lines, or \<^verbatim>\<open>None\<close>
      when it raises \<^verbatim>\<open>OSError\<close>.\<close>
  "get_term_size sz =
     (case sz of
        None \<Rightarrow> (80, 24)
      | Some (columns, lines) \<Rightarrow> (max 1 columns, max 1 lines))"

subsection \<open>The event loop of \<^verbatim>\<open>main\<close>: resize and standard input\<close>

record viewer =
  term_width :: int
  term_height :: int
  lines :: "pystr deque"
  xoff :: int
  inbuf :: "byte list"
  keybuf :: "byte list"
  dirty :: bool
  first :: bool
  resize_flag :: bool

definition handle_resize :: "(int \<times> int) option \<Rightarrow> viewer \<Rightarrow> py_error + viewer" where
  \<comment> \<open>The \<^verbatim>\<open>if resize_flag:\<close> block at the top of the loop.\<close>
  "handle_resize sz v =
     (if resize_flag v then
        (case get_term_size sz of
           (w, h) \<Rightarrow>
             (case deque_make (items (lines v)) h of
                Inl e \<Rightarrow> Inl e
              | Inr d \<Rightarrow>
                  Inr (v\<lparr>resize_flag := False, term_width := w, term_height := h,
                         lines := d, dirty := True\<rparr>)))
      else Inr v)"

definition rstrip_cr :: "byte list \<Rightarrow> byte list" where
  \<comment> \<open>\<^verbatim>\<open>raw.rstrip(b"\r")\<close>\<close>
  "rstrip_cr bs = rev (dropWhile (\<lambda>b. b = 0x0d) (rev bs))"

fun split_from :: "byte list \<Rightarrow> byte list \<Rightarrow> byte list list" where
  "split_from cur [] = [cur]"
| "split_from cur (b # bs) =
     (if b = 0x0a then cur # split_from [] bs else split_from (cur @ [b]) bs)"

definition split_nl :: "byte list \<Rightarrow> byte list list" where
  \<comment> \<open>\<^verbatim>\<open>bs.split(b"\n")\<close>: never empty.\<close>
  "split_nl bs = split_from [] bs"

fun rfind_from :: "byte list \<Rightarrow> nat \<Rightarrow> nat option" where
  "rfind_from bs 0 = None"
| "rfind_from bs (Suc k) = (if bs ! k = 0x0a then Some k else rfind_from bs k)"

definition rfind_nl :: "byte list \<Rightarrow> nat option" where
  \<comment> \<open>\<^verbatim>\<open>bs.rfind(b"\n")\<close>: the highest index of a newline; \<^verbatim>\<open>None\<close> for -1.\<close>
  "rfind_nl bs = rfind_from bs (length bs)"

definition append_raw :: "(byte list \<Rightarrow> pystr) \<Rightarrow> pystr deque \<Rightarrow> byte list list \<Rightarrow> pystr deque" where
  \<comment> \<open>\<^verbatim>\<open>for raw in raws: line = raw.rstrip(b"\r"); lines.append(line.decode("utf-8", "replace"))\<close>;
      the decoder is a parameter.\<close>
  "append_raw dec d raws = foldl (\<lambda>d raw. deque_append d (dec (rstrip_cr raw))) d raws"

lemma MAX_LINE_BYTES_pos: "0 < MAX_LINE_BYTES"
  by (simp add: MAX_LINE_BYTES_def)

text \<open>The loop \<^verbatim>\<open>while len(inbuf) > MAX_LINE_BYTES\<close>.\<close>

function cap_loop :: "(byte list \<Rightarrow> pystr) \<Rightarrow> viewer \<Rightarrow> viewer" where
  "cap_loop dec v =
     (if length (inbuf v) > MAX_LINE_BYTES then
        (let prefix = take MAX_LINE_BYTES (inbuf v) in
         case rfind_nl prefix of
           Some newline \<Rightarrow>
             cap_loop dec
               (v\<lparr>lines := append_raw dec (lines v) (split_nl (take newline prefix)),
                  inbuf := drop (newline + 1) (inbuf v), dirty := True\<rparr>)
         | None \<Rightarrow>
             cap_loop dec
               (v\<lparr>lines := deque_append (lines v) (dec (rstrip_cr prefix)),
                  inbuf := drop MAX_LINE_BYTES (inbuf v), dirty := True\<rparr>))
      else v)"
  by pat_completeness auto
termination
  using MAX_LINE_BYTES_pos
  by (relation "measure (\<lambda>(dec, v). length (inbuf v))") auto

declare cap_loop.simps [simp del]

definition handle_chunk :: "(byte list \<Rightarrow> pystr) \<Rightarrow> viewer \<Rightarrow> byte list \<Rightarrow> viewer" where
  \<comment> \<open>What the loop does with a non-empty chunk read from standard input.\<close>
  "handle_chunk dec v chunk =
     (let v1 = cap_loop dec (v\<lparr>inbuf := inbuf v @ chunk\<rparr>);
          parts = split_nl (inbuf v1)
      in v1\<lparr>lines := append_raw dec (lines v1) (butlast parts),
            dirty := (dirty v1 \<or> butlast parts \<noteq> []),
            inbuf := last parts\<rparr>)"

definition decode_ascii :: "byte list \<Rightarrow> pystr" where
  \<comment> \<open>\<^verbatim>\<open>bytes.decode("utf-8", "replace")\<close> on ASCII input; a byte from 0x80 on, which
      starts no sequence here, becomes U+FFFD.\<close>
  "decode_ascii bs = map (\<lambda>b. if b < 0x80 then unat b else 0xfffd) bs"

definition viewer_init :: "(int \<times> int) option \<Rightarrow> py_error + viewer" where
  \<comment> \<open>The state before the loop is entered.\<close>
  "viewer_init sz =
     (case get_term_size sz of
        (w, h) \<Rightarrow>
          (case deque_make [] h of
             Inl e \<Rightarrow> Inl e
           | Inr d \<Rightarrow>
               Inr \<lparr>term_width = w, term_height = h, lines = d, xoff = 0, inbuf = [],
                    keybuf = [], dirty = True, first = True, resize_flag = False\<rparr>))"

definition viewer_80x24 :: viewer where
  \<comment> \<open>The state before the loop on a terminal of 80 columns and 24 lines.\<close>
  "viewer_80x24 =
     \<lparr>term_width = 80, term_height = 24, lines = deque_new 24, xoff = 0, inbuf = [],
      keybuf = [], dirty = True, first = True, resize_flag = False\<rparr>"

subsection \<open>Notions the properties are stated with\<close>

definition is_final :: "codepoint \<Rightarrow> bool" where
  \<comment> \<open>A final byte of a CSI sequence: \<^verbatim>\<open>'@'..'~'\<close>.\<close>
  "is_final c = (0x40 \<le> c \<and> c \<le> 0x7e)"

definition starts_terminator :: "pystr \<Rightarrow> nat \<Rightarrow> bool" where
  \<comment> \<open>A terminator of an OSC sequence starts at index \<open>k\<close>: a bell, or \<^verbatim>\<open>ESC\<close> with a
      backslash right after it.\<close>
  "starts_terminator s k = (s ! k = 0x07 \<or> (s ! k = ESC \<and> Suc k < length s \<and> s ! Suc k = 0x5c))"

definition complete :: "pystr \<Rightarrow> bool" where
  \<comment> \<open>Exactly one whole escape sequence, ended by the first terminator of its form: a CSI
      sequence up to its first final byte; an OSC sequence up to the first bell or
      \<^verbatim>\<open>ESC \\<close>; a charset designator of three characters; any other escape form of two.\<close>
  "complete seq =
     (2 \<le> length seq \<and> seq ! 0 = ESC \<and>
      (let n = seq ! 1; l = length seq in
       if n = 0x5b then
         3 \<le> l \<and> is_final (seq ! (l - 1)) \<and> (\<forall>k \<in> set [2 ..< l - 1]. \<not> is_final (seq ! k))
       else if n = 0x5d then
         (3 \<le> l \<and> seq ! (l - 1) = 0x07
            \<and> (\<forall>k \<in> set [2 ..< l - 1]. \<not> starts_terminator seq k))
         \<or> (4 \<le> l \<and> seq ! (l - 2) = ESC \<and> seq ! (l - 1) = 0x5c
            \<and> (\<forall>k \<in> set [2 ..< l - 2]. \<not> starts_terminator seq k))
       else if n \<in> set [0x28, 0x29, 0x23, 0x25] then l = 3
       else l = 2))"

definition cut_short :: "pystr \<Rightarrow> bool" where
  \<comment> \<open>An escape sequence with no terminator in it: a lone \<^verbatim>\<open>ESC\<close>; \<^verbatim>\<open>ESC [\<close> followed by no
      final byte; \<^verbatim>\<open>ESC ]\<close> followed by no bell and no \<^verbatim>\<open>ESC \\<close>; a charset introducer with
      no character after it.\<close>
  "cut_short seq =
     (1 \<le> length seq \<and> seq ! 0 = ESC \<and>
      (length seq = 1 \<or>
       (let n = seq ! 1 in
        if n = 0x5b then (\<forall>k \<in> set [2 ..< length seq]. \<not> is_final (seq ! k))
        else if n = 0x5d then (\<forall>k \<in> set [2 ..< length seq]. \<not> starts_terminator seq k)
        else if n \<in> set [0x28, 0x29, 0x23, 0x25] then length seq = 2
        else False)))"

fun well_cut :: "token \<Rightarrow> token list \<Rightarrow> bool" where
  \<comment> \<open>A token, with the tokens after it: a character token is never the escape character;
      an escape token is one whole escape sequence, or it is the last token and has no
      terminator.\<close>
  "well_cut (Chr c) rest = (c \<noteq> ESC)"
| "well_cut (Ansi seq) rest = (complete seq \<or> (rest = [] \<and> cut_short seq))"

fun whole_escapes :: "token list \<Rightarrow> bool" where
  \<comment> \<open>Every token of the list is well cut.\<close>
  "whole_escapes [] = True"
| "whole_escapes (t # ts) = (well_cut t ts \<and> whole_escapes ts)"

definition csi_post :: "pystr \<Rightarrow> nat \<Rightarrow> nat \<Rightarrow> bool" where
  \<comment> \<open>Where the CSI scan from \<open>start\<close> may end: right after the first final byte, or at the
      end of a line that has none.\<close>
  "csi_post line start e =
     ((start + 3 \<le> e \<and> is_final (line ! (e - 1))
         \<and> (\<forall>k \<in> set [start + 2 ..< e - 1]. \<not> is_final (line ! k)))
      \<or> (e = length line \<and> (\<forall>k \<in> set [start + 2 ..< length line]. \<not> is_final (line ! k))))"

definition osc_post :: "pystr \<Rightarrow> nat \<Rightarrow> nat \<Rightarrow> bool" where
  \<comment> \<open>Where the OSC scan from \<open>start\<close> may end: right after the first bell or the first
      \<^verbatim>\<open>ESC \\<close>, or at the end of a line that has neither.\<close>
  "osc_post line start e =
     ((start + 3 \<le> e \<and> line ! (e - 1) = 0x07
         \<and> (\<forall>k \<in> set [start + 2 ..< e - 1]. \<not> starts_terminator line k))
      \<or> (start + 4 \<le> e \<and> line ! (e - 2) = ESC \<and> line ! (e - 1) = 0x5c
         \<and> (\<forall>k \<in> set [start + 2 ..< e - 2]. \<not> starts_terminator line k))
      \<or> (e = length line \<and> (\<forall>k \<in> set [start + 2 ..< length line]. \<not> starts_terminator line k)))"

fun tokens_width :: "unicode_env \<Rightarrow> token list \<Rightarrow> int" where
  \<comment> \<open>The columns the characters among the tokens take.\<close>
  "tokens_width env [] = 0"
| "tokens_width env (Ansi seq # ts) = tokens_width env ts"
| "tokens_width env (Chr c # ts) = char_width env c + tokens_width env ts"

fun escapes :: "token list \<Rightarrow> pystr" where
  \<comment> \<open>The escape sequences among the tokens, concatenated in order.\<close>
  "escapes [] = []"
| "escapes (Ansi seq # ts) = seq @ escapes ts"
| "escapes (Chr c # ts) = escapes ts"

fun skipped :: "unicode_env \<Rightarrow> int \<Rightarrow> int \<Rightarrow> token list \<Rightarrow> bool" where
  \<comment> \<open>Laid out from column \<^verbatim>\<open>col\<close>, every character of positive width among the tokens ends
      at or before the start column.\<close>
  "skipped env start_col col [] = True"
| "skipped env start_col col (Ansi seq # ts) = skipped env start_col col ts"
| "skipped env start_col col (Chr c # ts) =
     (let w = char_width env c in
      if w \<le> 0 then skipped env start_col col ts
      else col + w \<le> start_col \<and> skipped env start_col (col + w) ts)"

fun in_window :: "unicode_env \<Rightarrow> int \<Rightarrow> int \<Rightarrow> int \<Rightarrow> token list \<Rightarrow> bool" where
  \<comment> \<open>Laid out from column \<^verbatim>\<open>col\<close>, some character of positive width among the tokens has a
      column in the window from \<^verbatim>\<open>lo\<close> (included) to \<^verbatim>\<open>hi\<close> (excluded).\<close>
  "in_window env lo hi col [] = False"
| "in_window env lo hi col (Ansi seq # ts) = in_window env lo hi col ts"
| "in_window env lo hi col (Chr c # ts) =
     (let w = char_width env c in
      if w \<le> 0 then in_window env lo hi col ts
      else (col < hi \<and> lo < col + w) \<or> in_window env lo hi (col + w) ts)"

definition glue :: "byte list \<times> bool \<Rightarrow> byte list" where
  \<comment> \<open>The bytes of the input that a piece stands for: a line with the newline that ended it
      (\<open>True\<close>), or a segment cut by the cap, with nothing after it (\<open>False\<close>).\<close>
  "glue p = fst p @ (if snd p then [0x0a] else [])"

fun pieces_ok :: "(byte list \<times> bool) list \<Rightarrow> byte list \<Rightarrow> bool" where
  \<comment> \<open>The pieces flushed from an input, with the fragment retained after them: no piece holds
      a newline; a line ended by a newline is shorter than the cap; a segment cut by the cap
      is exactly as long as the cap, and input follows it.\<close>
  "pieces_ok [] rest = True"
| "pieces_ok (p # ps) rest =
     (0x0a \<notin> set (fst p)
      \<and> (if snd p then length (fst p) < MAX_LINE_BYTES
          else length (fst p) = MAX_LINE_BYTES \<and> concat (map glue ps) @ rest \<noteq> [])
      \<and> pieces_ok ps rest)"

definition mixed_line :: pystr where
  \<comment> \<open>The line \<^verbatim>\<open>"\x1b]0;t\x1b\\a\x1b(B\x1b[3"\<close>: an OSC sequence, a character, a charset
      designator, and a CSI sequence that the end of the line cuts.\<close>
  "mixed_line =
     ESC # str '']0;t'' @ [ESC, 0x5c] @ str ''a'' @ ESC # str ''(B'' @ ESC # str ''[3''"

definition resizing_viewer :: viewer where
  \<comment> \<open>A viewer holding three lines, with a resize pending.\<close>
  "resizing_viewer =
     viewer_80x24\<lparr>lines := \<lparr>items = [str ''A'', str ''B'', str ''C''], maxlen = 24\<rparr>,
                  resize_flag := True\<rparr>"

section \<open>Properties\<close>

subsection \<open>Widths of printable ASCII\<close>

lemma char_width_ascii:
  assumes "ascii_ok env" and "0x20 \<le> c" and "c \<le> 0x7e"
  shows "char_width env c = 1"
proof -
  from assms(2,3) have mem: "c \<in> set [0x20 ..< 0x7f]"
    unfolding set_upt by simp
  with assms(1) have
    "case wcwidth env of
       None \<Rightarrow> combining env c = 0 \<and> category env c \<noteq> ''Cf''
                \<and> east_asian_width env c \<notin> set [''W'', ''F'']
     | Some wcw \<Rightarrow> wcw c = 1"
    unfolding ascii_ok_def by blast
  with assms(2,3) show ?thesis
    by (cases "wcwidth env") (simp_all add: char_width_def)
qed

lemma ascii_ok_sample_env: "ascii_ok sample_env"
  by code_simp

subsection \<open>The scenario \<^verbatim>\<open>"\x1b[31mHELLO\x1b[0m WORLD"\<close>\<close>

lemma hello_world_tokens:
  "iter_tokens hello_world =
     [Ansi (ESC # str ''[31m''), Chr 0x48, Chr 0x45, Chr 0x4c, Chr 0x4c, Chr 0x4f,
      Ansi (ESC # str ''[0m''), Chr 0x20, Chr 0x57, Chr 0x4f, Chr 0x52, Chr 0x4c, Chr 0x44]"
  by code_simp

text \<open>
  Claim C1, as the program has it: whatever the width tables say beyond printable ASCII,
  \<^verbatim>\<open>slice_ansi(line, 0, 5)\<close> is \<^verbatim>\<open>"\x1b[31mHELLO\x1b[0m"\<close>, and \<^verbatim>\<open>slice_ansi(line, 6, 5)\<close> is
  \<^verbatim>\<open>"\x1b[31m\x1b[0mWORLD\x1b[0m"\<close>: every escape sequence met before the window is
  buffered and written in front of the first character of the window, the colour and the
  reset that closes it alike.
\<close>

theorem slice_hello_world:
  assumes "ascii_ok env"
  shows "slice_ansi env hello_world 0 5 = ESC # str ''[31mHELLO'' @ ESC # str ''[0m''
       \<and> slice_ansi env hello_world 6 5
           = ESC # str ''[31m'' @ ESC # str ''[0mWORLD'' @ ESC # str ''[0m''"
  using assms
  by (simp add: slice_ansi_def hello_world_tokens char_width_ascii slice_init_def
      start_window_def emit_char_def reset_def str_def Let_def)

theorem slice_hello_world_witness:
  "ascii_ok sample_env
   \<and> slice_ansi sample_env hello_world 0 5 = ESC # str ''[31mHELLO'' @ ESC # str ''[0m''
   \<and> slice_ansi sample_env hello_world 6 5
       = ESC # str ''[31m'' @ ESC # str ''[0mWORLD'' @ ESC # str ''[0m''"
proof -
  have ok: "ascii_ok sample_env" by code_simp
  from slice_hello_world [OF ok] ok show ?thesis by simp
qed

text \<open>The result claimed for column 6, \<^verbatim>\<open>"WORLD\x1b[0m"\<close> with nothing in front, is not
  what the program returns.\<close>

theorem slice_hello_world_no_prefix_counterexample:
  "slice_ansi sample_env hello_world 6 5 \<noteq> str ''WORLD'' @ ESC # str ''[0m''"
  by code_simp

subsection \<open>The key decoder on a split arrow key\<close>

text \<open>
  Claim C2 asks that a prefix of a key sequence be kept for the next read, so that \<^verbatim>\<open>ESC\<close>
  followed, on the next call, by \<^verbatim>\<open>[C\<close> gives \<^verbatim>\<open>right\<close> once. The program keeps the prefix
  \<^verbatim>\<open>ESC [\<close> (third and fourth equation), but a lone \<^verbatim>\<open>ESC\<close> is consumed: the first call
  returns no action and an empty remainder, and the second call, on \<^verbatim>\<open>[C\<close> alone, returns
  no action either.
\<close>

theorem lone_escape_is_dropped:
  "parse_keys [0x1b] = ([], [])
   \<and> parse_keys (snd (parse_keys [0x1b]) @ [0x5b, 0x43]) = ([], [])
   \<and> parse_keys [0x1b, 0x5b] = ([], [0x1b, 0x5b])
   \<and> parse_keys (snd (parse_keys [0x1b, 0x5b]) @ [0x43]) = ([''right''], [])"
  by code_simp

subsection \<open>The line buffer\<close>

lemma deque_append_maxlen [simp]: "maxlen (deque_append d x) = maxlen d"
  by (simp add: deque_append_def Let_def)

lemma foldl_deque_append_maxlen [simp]: "maxlen (foldl deque_append d xs) = maxlen d"
  by (induction xs arbitrary: d) simp_all

lemma deque_append_rev_items:
  assumes "length (items d) \<le> maxlen d"
  shows "rev (items (deque_append d x)) = take (maxlen d) (x # rev (items d))"
proof (cases "maxlen d < Suc (length (items d))")
  case True
  with assms have eq: "maxlen d = length (items d)" by simp
  have "rev (tl (items d @ [x])) = butlast (x # rev (items d))"
    by (simp add: butlast_rev [symmetric] del: butlast.simps)
  also have "\<dots> = take (maxlen d) (x # rev (items d))"
    by (simp add: butlast_conv_take eq del: butlast.simps)
  finally show ?thesis
    using True by (simp add: deque_append_def Let_def)
next
  case False
  then show ?thesis
    by (simp add: deque_append_def Let_def)
qed

lemma deque_append_length:
  assumes "length (items d) \<le> maxlen d"
  shows "length (items (deque_append d x)) \<le> maxlen d"
proof -
  have "length (items (deque_append d x)) = length (rev (items (deque_append d x)))"
    by simp
  also have "\<dots> \<le> maxlen d"
    unfolding deque_append_rev_items [OF assms] by simp
  finally show ?thesis .
qed

lemma take_append_take: "take m (as @ take m bs) = take m (as @ bs)"
  by (simp add: min_def)

lemma foldl_deque_append_rev_items:
  "length (items d) \<le> maxlen d \<Longrightarrow>
   rev (items (foldl deque_append d xs)) = take (maxlen d) (rev xs @ rev (items d))"
proof (induction xs arbitrary: d)
  case Nil
  then show ?case by simp
next
  case (Cons x xs)
  let ?d = "deque_append d x"
  have len: "length (items ?d) \<le> maxlen ?d"
    using Cons.prems by (simp add: deque_append_length)
  have "rev (items (foldl deque_append ?d xs))
      = take (maxlen d) (rev xs @ take (maxlen d) (x # rev (items d)))"
    using Cons.IH [OF len] by (simp add: deque_append_rev_items [OF Cons.prems])
  also have "\<dots> = take (maxlen d) (rev xs @ x # rev (items d))"
    by (rule take_append_take)
  finally show ?case by simp
qed

lemma foldl_deque_append_items:
  assumes "length (items d) \<le> maxlen d"
  shows "items (foldl deque_append d xs)
       = drop (length (items d @ xs) - maxlen d) (items d @ xs)"
proof -
  have "items (foldl deque_append d xs) = rev (take (maxlen d) (rev (items d @ xs)))"
    using foldl_deque_append_rev_items [OF assms, of xs]
    by (metis rev_append rev_rev_ident)
  also have "\<dots> = drop (length (items d @ xs) - maxlen d) (items d @ xs)"
    by (simp only: rev_take rev_rev_ident length_rev)
  finally show ?thesis .
qed

text \<open>
  Claim C6: when more than \<open>c\<close> lines are appended to a buffer of capacity \<open>c > 0\<close>, whatever
  it held, exactly the last \<open>c\<close> of the appended lines remain, in order.
\<close>

theorem most_recent_lines_kept:
  assumes "maxlen d = c" and "0 < c" and "length (items d) \<le> c" and "c < length xs"
  shows "items (foldl deque_append d xs) = drop (length xs - c) xs
       \<and> length (items (foldl deque_append d xs)) = c"
proof -
  have "items (foldl deque_append d xs) = drop (length (items d @ xs) - c) (items d @ xs)"
    using foldl_deque_append_items [of d xs] assms by simp
  also have "\<dots> = drop (length xs - c) xs"
    using assms by simp
  finally show ?thesis
    using assms by simp
qed

theorem most_recent_lines_kept_witness:
  "maxlen (deque_new 3 :: pystr deque) = 3 \<and> (0::nat) < 3
   \<and> length (items (deque_new 3 :: pystr deque)) \<le> 3
   \<and> 3 < length [str ''A'', str ''B'', str ''C'', str ''D'']
   \<and> items (foldl deque_append (deque_new 3) [str ''A'', str ''B'', str ''C'', str ''D''])
       = [str ''B'', str ''C'', str ''D'']"
  using most_recent_lines_kept
    [of "deque_new 3 :: pystr deque" 3 "[str ''A'', str ''B'', str ''C'', str ''D'']"]
  by (simp add: deque_new_def)

text \<open>
  Claim C7: the resize step of the loop never raises; the new buffer has the capacity the
  terminal reports (at least 1) and holds the most recent lines that fit, all of them
  when the capacity is not smaller than their number.
\<close>

theorem resize_keeps_most_recent:
  "\<exists>v'. handle_resize sz v = Inr v'
     \<and> (resize_flag v \<longrightarrow>
          (let h = nat (snd (get_term_size sz)) in
           0 < h \<and> maxlen (lines v') = h
           \<and> items (lines v') = drop (length (items (lines v)) - h) (items (lines v))
           \<and> (length (items (lines v)) \<le> h \<longrightarrow> items (lines v') = items (lines v))))"
proof (cases "resize_flag v")
  case False
  then show ?thesis by (simp add: handle_resize_def)
next
  case True
  obtain w k where sz: "get_term_size sz = (w, k)" by (cases "get_term_size sz")
  have "1 \<le> k"
    using sz by (auto simp: get_term_size_def split: option.splits prod.splits)
  then have k: "\<not> k < 0" "0 < nat k" by simp_all
  let ?d = "foldl deque_append (deque_new (nat k)) (items (lines v))"
  have make: "deque_make (items (lines v)) k = Inr ?d"
    using k by (simp add: deque_make_def)
  have items: "items ?d = drop (length (items (lines v)) - nat k) (items (lines v))"
    using foldl_deque_append_items [of "deque_new (nat k)" "items (lines v)"]
    by (simp add: deque_new_def)
  have "maxlen ?d = nat k" by (simp add: deque_new_def)
  with items make sz True k show ?thesis
    by (simp add: handle_resize_def)
qed

theorem resize_keeps_most_recent_witness:
  "resize_flag resizing_viewer
   \<and> (\<exists>v'. handle_resize (Some (80, 2)) resizing_viewer = Inr v'
          \<and> maxlen (lines v') = 2 \<and> items (lines v') = [str ''B'', str ''C''])
   \<and> (\<exists>v'. handle_resize (Some (80, 30)) resizing_viewer = Inr v'
          \<and> maxlen (lines v') = 30 \<and> items (lines v') = [str ''A'', str ''B'', str ''C''])"
proof -
  have v: "resize_flag resizing_viewer"
    "items (lines resizing_viewer) = [str ''A'', str ''B'', str ''C'']"
    by (simp_all add: resizing_viewer_def)
  have sz: "get_term_size (Some (80, 2)) = (80, 2)" "get_term_size (Some (80, 30)) = (80, 30)"
    by (simp_all add: get_term_size_def)
  from resize_keeps_most_recent [of "Some (80, 2)" resizing_viewer]
    resize_keeps_most_recent [of "Some (80, 30)" resizing_viewer]
  show ?thesis
    by (simp add: v sz Let_def)
qed

subsection \<open>The safety cap on the retained fragment\<close>

lemma split_from_nonempty: "split_from cur bs \<noteq> []"
  by (induction bs arbitrary: cur) auto

lemma split_from_last_length: "length (last (split_from cur bs)) \<le> length cur + length bs"
proof (induction bs arbitrary: cur)
  case Nil
  show ?case by simp
next
  case (Cons b bs)
  show ?case
    using Cons.IH [of "[]"] Cons.IH [of "cur @ [b]"]
    by (simp add: split_from_nonempty)
qed

lemma split_nl_last_length: "length (last (split_nl bs)) \<le> length bs"
  using split_from_last_length [of "[]" bs] by (simp add: split_nl_def)

lemma cap_loop_length: "length (inbuf (cap_loop dec v)) \<le> MAX_LINE_BYTES"
proof (induction dec v rule: cap_loop.induct)
  case (1 dec v)
  show ?case
  proof (cases "length (inbuf v) > MAX_LINE_BYTES")
    case False
    then show ?thesis by (subst cap_loop.simps) simp
  next
    case True
    show ?thesis
    proof (cases "rfind_nl (take MAX_LINE_BYTES (inbuf v))")
      case None
      with True "1.IH"(1) [OF True refl None] show ?thesis
        by (subst cap_loop.simps) simp
    next
      case (Some newline)
      with True "1.IH"(2) [OF True refl Some] show ?thesis
        by (subst cap_loop.simps) simp
    qed
  qed
qed

lemma handle_chunk_length: "length (inbuf (handle_chunk dec v chunk)) \<le> MAX_LINE_BYTES"
proof -
  let ?v1 = "cap_loop dec (v\<lparr>inbuf := inbuf v @ chunk\<rparr>)"
  have "length (last (split_nl (inbuf ?v1))) \<le> length (inbuf ?v1)"
    by (rule split_nl_last_length)
  also have "\<dots> \<le> MAX_LINE_BYTES" by (rule cap_loop_length)
  finally show ?thesis by (simp add: handle_chunk_def Let_def)
qed

lemma split_from_no_newline: "0x0a \<notin> set bs \<Longrightarrow> split_from cur bs = [cur @ bs]"
  by (induction bs arbitrary: cur) auto

lemma split_nl_no_newline: "0x0a \<notin> set bs \<Longrightarrow> split_nl bs = [bs]"
  by (simp add: split_nl_def split_from_no_newline)

lemma rfind_from_no_newline: "0x0a \<notin> set bs \<Longrightarrow> k \<le> length bs \<Longrightarrow> rfind_from bs k = None"
proof (induction k)
  case 0
  show ?case by simp
next
  case (Suc k)
  from Suc.prems have "bs ! k \<in> set bs" by simp
  with Suc.prems(1) have "bs ! k \<noteq> 0x0a" by metis
  with Suc show ?case by simp
qed

lemma rfind_nl_no_newline: "0x0a \<notin> set bs \<Longrightarrow> rfind_nl bs = None"
  by (simp add: rfind_nl_def rfind_from_no_newline)

lemma cap_loop_small: "length (inbuf v) \<le> MAX_LINE_BYTES \<Longrightarrow> cap_loop dec v = v"
  by (subst cap_loop.simps) simp

lemma cap_loop_one_flush:
  assumes "0x0a \<notin> set (inbuf v)" and "MAX_LINE_BYTES < length (inbuf v)"
    and "length (inbuf v) \<le> 2 * MAX_LINE_BYTES"
  shows "cap_loop dec v =
           v\<lparr>lines := deque_append (lines v) (dec (rstrip_cr (take MAX_LINE_BYTES (inbuf v)))),
             inbuf := drop MAX_LINE_BYTES (inbuf v), dirty := True\<rparr>"
proof -
  have "0x0a \<notin> set (take MAX_LINE_BYTES (inbuf v))"
    using assms(1) by (meson in_set_takeD)
  then have none: "rfind_nl (take MAX_LINE_BYTES (inbuf v)) = None"
    by (rule rfind_nl_no_newline)
  show ?thesis
    using assms(2,3) none
    by (subst cap_loop.simps) (simp add: cap_loop_small)
qed


lemma handle_chunk_small:
  assumes "0x0a \<notin> set (inbuf v @ c)" and "length (inbuf v @ c) \<le> MAX_LINE_BYTES"
  shows "inbuf (handle_chunk dec v c) = inbuf v @ c \<and> lines (handle_chunk dec v c) = lines v"
proof -
  have "cap_loop dec (v\<lparr>inbuf := inbuf v @ c\<rparr>) = v\<lparr>inbuf := inbuf v @ c\<rparr>"
    using assms(2) by (simp add: cap_loop_small)
  moreover have "split_nl (inbuf v @ c) = [inbuf v @ c]"
    using assms(1) by (rule split_nl_no_newline)
  ultimately show ?thesis
    by (simp add: handle_chunk_def Let_def append_raw_def)
qed

lemma handle_chunk_flush:
  assumes "0x0a \<notin> set (inbuf v @ c)" and "MAX_LINE_BYTES < length (inbuf v @ c)"
    and "length (inbuf v @ c) \<le> 2 * MAX_LINE_BYTES"
  shows "inbuf (handle_chunk dec v c) = drop MAX_LINE_BYTES (inbuf v @ c)
       \<and> lines (handle_chunk dec v c)
           = deque_append (lines v) (dec (rstrip_cr (take MAX_LINE_BYTES (inbuf v @ c))))"
proof -
  let ?u = "v\<lparr>inbuf := inbuf v @ c\<rparr>"
  have "cap_loop dec ?u =
          ?u\<lparr>lines := deque_append (lines ?u) (dec (rstrip_cr (take MAX_LINE_BYTES (inbuf ?u)))),
             inbuf := drop MAX_LINE_BYTES (inbuf ?u), dirty := True\<rparr>"
    using assms by (intro cap_loop_one_flush) simp_all
  moreover have "0x0a \<notin> set (drop MAX_LINE_BYTES (inbuf v @ c))"
    using assms(1) by (meson in_set_dropD)
  then have "split_nl (drop MAX_LINE_BYTES (inbuf v @ c)) = [drop MAX_LINE_BYTES (inbuf v @ c)]"
    by (rule split_nl_no_newline)
  ultimately show ?thesis
    by (simp add: handle_chunk_def Let_def append_raw_def)
qed

lemma no_newline_scenario:
  assumes empty: "inbuf v0 = []"
    and nl: "0x0a \<notin> set (concat chunks)"
    and len: "length (concat chunks) \<le> 2 * MAX_LINE_BYTES"
  shows "(length (concat chunks) \<le> MAX_LINE_BYTES \<longrightarrow>
            inbuf (foldl (handle_chunk dec) v0 chunks) = concat chunks
          \<and> lines (foldl (handle_chunk dec) v0 chunks) = lines v0)
       \<and> (MAX_LINE_BYTES < length (concat chunks) \<longrightarrow>
            inbuf (foldl (handle_chunk dec) v0 chunks) = drop MAX_LINE_BYTES (concat chunks)
          \<and> lines (foldl (handle_chunk dec) v0 chunks)
              = deque_append (lines v0) (dec (rstrip_cr (take MAX_LINE_BYTES (concat chunks)))))"
  using nl len
proof (induction chunks rule: rev_induct)
  case Nil
  show ?case using empty by simp
next
  case (snoc c cs)
  let ?T = "concat cs"
  let ?v = "foldl (handle_chunk dec) v0 cs"
  from snoc.prems have nlT: "0x0a \<notin> set ?T" and nlc: "0x0a \<notin> set c"
    and lenT: "length ?T \<le> 2 * MAX_LINE_BYTES"
    and lenTc: "length ?T + length c \<le> 2 * MAX_LINE_BYTES"
    by simp_all
  note IH = snoc.IH [OF nlT lenT]
  show ?case
  proof (cases "length ?T \<le> MAX_LINE_BYTES")
    case small: True
    with IH have st: "inbuf ?v = ?T" "lines ?v = lines v0" by simp_all
    have nl': "0x0a \<notin> set (inbuf ?v @ c)" using st nlT nlc by simp
    show ?thesis
    proof (cases "length ?T + length c \<le> MAX_LINE_BYTES")
      case True
      then have "length (inbuf ?v @ c) \<le> MAX_LINE_BYTES" using st by simp
      from handle_chunk_small [OF nl' this, of dec] True st show ?thesis
        by simp
    next
      case False
      then have "MAX_LINE_BYTES < length (inbuf ?v @ c)"
        and "length (inbuf ?v @ c) \<le> 2 * MAX_LINE_BYTES"
        using st lenTc by simp_all
      from handle_chunk_flush [OF nl' this, of dec] False st show ?thesis
        by simp
    qed
  next
    case big: False
    with IH have st: "inbuf ?v = drop MAX_LINE_BYTES ?T"
      "lines ?v = deque_append (lines v0) (dec (rstrip_cr (take MAX_LINE_BYTES ?T)))"
      by simp_all
    have "length (inbuf ?v @ c) \<le> MAX_LINE_BYTES"
      using st lenTc big by simp
    moreover have "0x0a \<notin> set (inbuf ?v @ c)"
      using nlT nlc st by (auto dest: in_set_dropD)
    ultimately have "inbuf (handle_chunk dec ?v c) = inbuf ?v @ c
        \<and> lines (handle_chunk dec ?v c) = lines ?v"
      by (intro handle_chunk_small)
    with big st show ?thesis
      by simp
  qed
qed

lemma split_from_glue:
  "concat (map (\<lambda>r. r @ [0x0a]) (butlast (split_from cur bs))) @ last (split_from cur bs)
     = cur @ bs"
proof (induction bs arbitrary: cur)
  case Nil
  show ?case by simp
next
  case (Cons b bs)
  show ?case
    using Cons.IH [of "[]"] Cons.IH [of "cur @ [b]"]
    by (simp add: split_from_nonempty)
qed

lemma split_from_newline_free:
  "0x0a \<notin> set cur \<Longrightarrow> r \<in> set (split_from cur bs) \<Longrightarrow> 0x0a \<notin> set r"
proof (induction bs arbitrary: cur)
  case Nil
  then show ?case by simp
next
  case (Cons b bs)
  show ?case
  proof (cases "b = 0x0a")
    case True
    with Cons.prems Cons.IH [of "[]"] show ?thesis by auto
  next
    case False
    with Cons.prems Cons.IH [of "cur @ [b]"] show ?thesis by auto
  qed
qed

lemma split_nl_newline_free: "r \<in> set (split_nl bs) \<Longrightarrow> 0x0a \<notin> set r"
  using split_from_newline_free [of "[]" r bs] by (simp add: split_nl_def)

lemma split_from_part_length:
  "r \<in> set (split_from cur bs) \<Longrightarrow> length r \<le> length cur + length bs"
proof (induction bs arbitrary: cur)
  case Nil
  then show ?case by simp
next
  case (Cons b bs)
  show ?case
  proof (cases "b = 0x0a")
    case True
    with Cons.prems Cons.IH [of "[]"] show ?thesis by auto
  next
    case False
    with Cons.prems Cons.IH [of "cur @ [b]"] show ?thesis by auto
  qed
qed

lemma split_nl_part_length: "r \<in> set (split_nl bs) \<Longrightarrow> length r \<le> length bs"
  using split_from_part_length [of r "[]" bs] by (simp add: split_nl_def)

lemma glued_length:
  "r \<in> set rs \<Longrightarrow> Suc (length r) \<le> length (concat (map (\<lambda>r. r @ [x]) rs))"
  by (induction rs) auto

lemma split_nl_glue:
  "concat (map (\<lambda>r. r @ [0x0a]) (butlast (split_nl bs))) @ last (split_nl bs) = bs"
  using split_from_glue [of "[]" bs] by (simp add: split_nl_def)

lemma split_nl_line_length:
  assumes "r \<in> set (butlast (split_nl bs))"
  shows "length r < length bs"
proof -
  have "Suc (length r) \<le> length (concat (map (\<lambda>r. r @ [0x0a]) (butlast (split_nl bs))))"
    using assms by (rule glued_length)
  also have "\<dots> \<le> length (concat (map (\<lambda>r. r @ [0x0a]) (butlast (split_nl bs)))
      @ last (split_nl bs))"
    by simp
  also have "\<dots> = length bs"
    by (simp only: split_nl_glue)
  finally show ?thesis by simp
qed

lemma concat_map_snoc:
  "xs \<noteq> [] \<Longrightarrow> concat (map f xs) = concat (map f (butlast xs)) @ f (last xs)"
  by (induction xs) auto

lemma split_nl_glue_all: "concat (map (\<lambda>r. r @ [0x0a]) (split_nl bs)) = bs @ [0x0a]"
proof -
  have ne: "split_nl bs \<noteq> []" by (simp add: split_nl_def split_from_nonempty)
  have "concat (map (\<lambda>r. r @ [0x0a]) (split_nl bs))
      = (concat (map (\<lambda>r. r @ [0x0a]) (butlast (split_nl bs))) @ last (split_nl bs)) @ [0x0a]"
    using concat_map_snoc [OF ne, of "\<lambda>r. r @ [0x0a]"] by simp
  then show ?thesis
    by (simp only: split_nl_glue)
qed

lemma rfind_from_Some: "rfind_from bs k = Some j \<Longrightarrow> j < k \<and> bs ! j = 0x0a"
  by (induction k) (auto split: if_splits)

lemma rfind_from_None: "rfind_from bs k = None \<Longrightarrow> j < k \<Longrightarrow> bs ! j \<noteq> 0x0a"
  by (induction k) (auto split: if_splits simp: less_Suc_eq)

lemma rfind_nl_Some: "rfind_nl bs = Some j \<Longrightarrow> j < length bs \<and> bs ! j = 0x0a"
  unfolding rfind_nl_def by (rule rfind_from_Some)

lemma rfind_nl_None: "rfind_nl bs = None \<Longrightarrow> 0x0a \<notin> set bs"
proof
  assume a: "rfind_nl bs = None" and "0x0a \<in> set bs"
  then obtain j where "j < length bs" "bs ! j = 0x0a"
    by (auto simp: in_set_conv_nth)
  with rfind_from_None [of bs "length bs" j] a show False
    by (simp add: rfind_nl_def)
qed

lemma append_raw_append:
  "append_raw dec (append_raw dec d xs) ys = append_raw dec d (xs @ ys)"
  by (simp add: append_raw_def)

lemma append_raw_Cons:
  "append_raw dec d (x # xs) = append_raw dec (deque_append d (dec (rstrip_cr x))) xs"
  by (simp add: append_raw_def)

lemma pieces_ok_append:
  "pieces_ok (ps @ qs) rest = (pieces_ok ps (concat (map glue qs) @ rest) \<and> pieces_ok qs rest)"
  by (induction ps) auto

lemma pieces_ok_lines:
  assumes "\<And>r. r \<in> set rs \<Longrightarrow> 0x0a \<notin> set r \<and> length r < MAX_LINE_BYTES"
  shows "pieces_ok (map (\<lambda>r. (r, True)) rs) rest"
  using assms by (induction rs) auto

lemma glue_lines: "map glue (map (\<lambda>r. (r, True)) rs) = map (\<lambda>r. r @ [0x0a]) rs"
  by (simp add: glue_def)

lemma fst_lines: "map fst (map (\<lambda>r. (r, True)) rs) = rs"
  by (simp add: comp_def)

lemma cap_loop_pieces:
  "\<exists>pieces. lines (cap_loop dec v) = append_raw dec (lines v) (map fst pieces)
     \<and> concat (map glue pieces) @ inbuf (cap_loop dec v) = inbuf v
     \<and> pieces_ok pieces (inbuf (cap_loop dec v))"
proof (induction dec v rule: cap_loop.induct)
  case (1 dec v)
  show ?case
  proof (cases "length (inbuf v) > MAX_LINE_BYTES")
    case False
    then have "cap_loop dec v = v" by (simp add: cap_loop_small)
    then have "lines (cap_loop dec v) = append_raw dec (lines v) (map fst [])
     \<and> concat (map glue []) @ inbuf (cap_loop dec v) = inbuf v
     \<and> pieces_ok [] (inbuf (cap_loop dec v))"
      by (simp add: append_raw_def)
    then show ?thesis by blast
  next
    case True
    let ?prefix = "take MAX_LINE_BYTES (inbuf v)"
    have plen: "length ?prefix = MAX_LINE_BYTES" using True by simp
    show ?thesis
    proof (cases "rfind_nl ?prefix")
      case None
      let ?v' = "v\<lparr>lines := deque_append (lines v) (dec (rstrip_cr ?prefix)),
                    inbuf := drop MAX_LINE_BYTES (inbuf v), dirty := True\<rparr>"
      have step: "cap_loop dec v = cap_loop dec ?v'"
        using True None by (subst cap_loop.simps) simp
      from "1.IH"(1) [OF True refl None]
      obtain ps where ps: "lines (cap_loop dec ?v') = append_raw dec (lines ?v') (map fst ps)"
        "concat (map glue ps) @ inbuf (cap_loop dec ?v') = inbuf ?v'"
        "pieces_ok ps (inbuf (cap_loop dec ?v'))"
        by blast
      have nl: "0x0a \<notin> set ?prefix" using None by (rule rfind_nl_None)
      have more: "drop MAX_LINE_BYTES (inbuf v) \<noteq> []" using True by simp
      let ?pieces = "(?prefix, False) # ps"
      have "lines (cap_loop dec v) = append_raw dec (lines v) (map fst ?pieces)"
        unfolding step using ps(1) by (simp add: append_raw_Cons)
      moreover have "concat (map glue ?pieces) @ inbuf (cap_loop dec v) = inbuf v"
        unfolding step using ps(2) by (simp add: glue_def)
      moreover have "pieces_ok ?pieces (inbuf (cap_loop dec v))"
        unfolding step using ps(2,3) nl plen more by simp
      ultimately show ?thesis by blast
    next
      case (Some newline)
      let ?parts = "split_nl (take newline ?prefix)"
      let ?v' = "v\<lparr>lines := append_raw dec (lines v) ?parts,
                    inbuf := drop (newline + 1) (inbuf v), dirty := True\<rparr>"
      have step: "cap_loop dec v = cap_loop dec ?v'"
        using True Some by (subst cap_loop.simps) simp
      from "1.IH"(2) [OF True refl Some]
      obtain ps where ps: "lines (cap_loop dec ?v') = append_raw dec (lines ?v') (map fst ps)"
        "concat (map glue ps) @ inbuf (cap_loop dec ?v') = inbuf ?v'"
        "pieces_ok ps (inbuf (cap_loop dec ?v'))"
        by blast
      from rfind_nl_Some [OF Some] plen
      have nw: "newline < MAX_LINE_BYTES" "?prefix ! newline = 0x0a" by simp_all
      then have at: "inbuf v ! newline = 0x0a" by simp
      have lt: "newline < length (inbuf v)" using nw True by simp
      have "take newline ?prefix = take newline (inbuf v)"
        using nw by (simp add: min_def)
      then have "take newline ?prefix @ [0x0a] = take (Suc newline) (inbuf v)"
        using at lt by (simp add: take_Suc_conv_app_nth)
      then have glued: "concat (map (\<lambda>r. r @ [0x0a]) ?parts) = take (Suc newline) (inbuf v)"
        by (simp only: split_nl_glue_all)
      let ?qs = "map (\<lambda>r. (r, True)) ?parts"
      have ok: "pieces_ok ?qs rest" for rest
      proof (rule pieces_ok_lines)
        fix r assume r: "r \<in> set ?parts"
        then have "length r \<le> length (take newline ?prefix)" by (rule split_nl_part_length)
        also have "\<dots> \<le> newline" by simp
        finally have "length r < MAX_LINE_BYTES" using nw by simp
        with split_nl_newline_free [OF r]
        show "0x0a \<notin> set r \<and> length r < MAX_LINE_BYTES" by simp
      qed
      have "lines (cap_loop dec v) = append_raw dec (lines v) (map fst (?qs @ ps))"
        unfolding step using ps(1) by (simp add: append_raw_append comp_def)
      moreover have "concat (map glue (?qs @ ps)) @ inbuf (cap_loop dec v) = inbuf v"
      proof -
        have "concat (map glue (?qs @ ps)) @ inbuf (cap_loop dec ?v')
            = concat (map glue ?qs) @ (concat (map glue ps) @ inbuf (cap_loop dec ?v'))"
          by simp
        also have "\<dots> = take (Suc newline) (inbuf v) @ drop (Suc newline) (inbuf v)"
          unfolding ps(2) glue_lines glued by simp
        finally show ?thesis unfolding step by simp
      qed
      moreover have "pieces_ok (?qs @ ps) (inbuf (cap_loop dec v))"
        unfolding step using ps(3) ok by (simp add: pieces_ok_append)
      ultimately show ?thesis by blast
    qed
  qed
qed

lemma handle_chunk_pieces:
  "\<exists>pieces. lines (handle_chunk dec v chunk) = append_raw dec (lines v) (map fst pieces)
     \<and> concat (map glue pieces) @ inbuf (handle_chunk dec v chunk) = inbuf v @ chunk
     \<and> pieces_ok pieces (inbuf (handle_chunk dec v chunk))"
proof -
  let ?u = "v\<lparr>inbuf := inbuf v @ chunk\<rparr>"
  let ?v1 = "cap_loop dec ?u"
  let ?parts = "split_nl (inbuf ?v1)"
  from cap_loop_pieces [of dec ?u]
  obtain ps where ps: "lines ?v1 = append_raw dec (lines ?u) (map fst ps)"
    "concat (map glue ps) @ inbuf ?v1 = inbuf ?u"
    "pieces_ok ps (inbuf ?v1)"
    by blast
  have res: "lines (handle_chunk dec v chunk) = append_raw dec (lines ?v1) (butlast ?parts)"
    "inbuf (handle_chunk dec v chunk) = last ?parts"
    by (simp_all add: handle_chunk_def Let_def)
  let ?qs = "map (\<lambda>r. (r, True)) (butlast ?parts)"
  have glued: "concat (map glue ?qs) @ last ?parts = inbuf ?v1"
    unfolding glue_lines by (rule split_nl_glue)
  have ok: "pieces_ok ?qs rest" for rest
  proof (rule pieces_ok_lines)
    fix r assume r: "r \<in> set (butlast ?parts)"
    then have "length r < length (inbuf ?v1)" by (rule split_nl_line_length)
    also have "\<dots> \<le> MAX_LINE_BYTES" by (rule cap_loop_length)
    finally have "length r < MAX_LINE_BYTES" .
    moreover have "r \<in> set ?parts" using r by (rule in_set_butlastD)
    then have "0x0a \<notin> set r" by (rule split_nl_newline_free)
    ultimately show "0x0a \<notin> set r \<and> length r < MAX_LINE_BYTES" by simp
  qed
  have "lines (handle_chunk dec v chunk) = append_raw dec (lines v) (map fst (ps @ ?qs))"
    unfolding res using ps(1) by (simp add: append_raw_append comp_def)
  moreover have "concat (map glue (ps @ ?qs)) @ inbuf (handle_chunk dec v chunk) = inbuf v @ chunk"
  proof -
    have "concat (map glue (ps @ ?qs)) @ last ?parts
        = concat (map glue ps) @ (concat (map glue ?qs) @ last ?parts)"
      by simp
    also have "\<dots> = inbuf ?u"
      unfolding glued by (rule ps(2))
    finally show ?thesis unfolding res by simp
  qed
  moreover have "pieces_ok (ps @ ?qs) (inbuf (handle_chunk dec v chunk))"
    unfolding res pieces_ok_append glued using ps(3) ok by simp
  ultimately show ?thesis by blast
qed

lemma handle_chunk_newline_free: "0x0a \<notin> set (inbuf (handle_chunk dec v chunk))"
proof -
  let ?parts = "split_nl (inbuf (cap_loop dec (v\<lparr>inbuf := inbuf v @ chunk\<rparr>)))"
  have "?parts \<noteq> []" by (simp add: split_nl_def split_from_nonempty)
  then have "last ?parts \<in> set ?parts" by (rule last_in_set)
  then have "0x0a \<notin> set (last ?parts)" by (rule split_nl_newline_free)
  then show ?thesis by (simp add: handle_chunk_def Let_def)
qed

lemma small_chunk:
  "items (lines (handle_chunk decode_ascii viewer_80x24 [0x61, 0x0a, 0x62])) = [[0x61]]"
  "inbuf (handle_chunk decode_ascii viewer_80x24 [0x61, 0x0a, 0x62]) = [0x62]"
proof -
  have "cap_loop decode_ascii (viewer_80x24\<lparr>inbuf := inbuf viewer_80x24 @ [0x61, 0x0a, 0x62]\<rparr>)
      = viewer_80x24\<lparr>inbuf := inbuf viewer_80x24 @ [0x61, 0x0a, 0x62]\<rparr>"
    by (rule cap_loop_small) (simp add: viewer_80x24_def MAX_LINE_BYTES_def)
  then show "items (lines (handle_chunk decode_ascii viewer_80x24 [0x61, 0x0a, 0x62])) = [[0x61]]"
    and "inbuf (handle_chunk decode_ascii viewer_80x24 [0x61, 0x0a, 0x62]) = [0x62]"
    by (simp_all add: handle_chunk_def Let_def viewer_80x24_def split_nl_def append_raw_def
        deque_append_def deque_new_def decode_ascii_def rstrip_cr_def)
qed

text \<open>
  Claim C8: after any chunk, whatever the state before, nothing of the input is lost and
  the retained fragment is within the cap. The bytes held before and the chunk are, in
  order, the pieces appended to the buffer followed by the fragment retained; every piece
  is appended by the same \<^verbatim>\<open>append\<close>, after the same stripping and decoding; a piece is
  either a line that a newline ended, shorter than \<^verbatim>\<open>MAX_LINE_BYTES\<close>, or a segment of
  exactly \<^verbatim>\<open>MAX_LINE_BYTES\<close> bytes without newline that the cap cut, with input still
  following it; and the fragment retained has no newline and at most \<^verbatim>\<open>MAX_LINE_BYTES\<close>
  bytes. In particular, when input of twice the cap with no newline arrives, in any chunks,
  starting from an empty fragment, exactly one line has been appended before the end of
  the stream: the first \<^verbatim>\<open>MAX_LINE_BYTES\<close> bytes; the rest is retained.
\<close>

theorem fragment_never_exceeds_cap:
  "(\<exists>pieces. lines (handle_chunk dec v chunk) = append_raw dec (lines v) (map fst pieces)
       \<and> concat (map glue pieces) @ inbuf (handle_chunk dec v chunk) = inbuf v @ chunk
       \<and> pieces_ok pieces (inbuf (handle_chunk dec v chunk)))
   \<and> 0x0a \<notin> set (inbuf (handle_chunk dec v chunk))
   \<and> length (inbuf (handle_chunk dec v chunk)) \<le> MAX_LINE_BYTES
   \<and> (inbuf v0 = [] \<and> 0x0a \<notin> set (concat chunks)
        \<and> length (concat chunks) = 2 * MAX_LINE_BYTES \<longrightarrow>
      lines (foldl (handle_chunk dec) v0 chunks)
        = deque_append (lines v0) (dec (rstrip_cr (take MAX_LINE_BYTES (concat chunks))))
      \<and> inbuf (foldl (handle_chunk dec) v0 chunks) = drop MAX_LINE_BYTES (concat chunks))"
proof (intro conjI impI)
  show "\<exists>pieces. lines (handle_chunk dec v chunk) = append_raw dec (lines v) (map fst pieces)
       \<and> concat (map glue pieces) @ inbuf (handle_chunk dec v chunk) = inbuf v @ chunk
       \<and> pieces_ok pieces (inbuf (handle_chunk dec v chunk))"
    by (rule handle_chunk_pieces)
next
  show "0x0a \<notin> set (inbuf (handle_chunk dec v chunk))"
    by (rule handle_chunk_newline_free)
next
  show "length (inbuf (handle_chunk dec v chunk)) \<le> MAX_LINE_BYTES"
    by (rule handle_chunk_length)
next
  assume a: "inbuf v0 = [] \<and> 0x0a \<notin> set (concat chunks)
        \<and> length (concat chunks) = 2 * MAX_LINE_BYTES"
  then have big: "MAX_LINE_BYTES < length (concat chunks)"
    using MAX_LINE_BYTES_pos by simp
  from a have "inbuf v0 = []" "0x0a \<notin> set (concat chunks)"
    "length (concat chunks) \<le> 2 * MAX_LINE_BYTES" by simp_all
  from no_newline_scenario [OF this, of dec] big
  show "lines (foldl (handle_chunk dec) v0 chunks)
        = deque_append (lines v0) (dec (rstrip_cr (take MAX_LINE_BYTES (concat chunks))))"
    and "inbuf (foldl (handle_chunk dec) v0 chunks) = drop MAX_LINE_BYTES (concat chunks)"
    by simp_all
qed

theorem fragment_never_exceeds_cap_witness:
  "inbuf viewer_80x24 = []
   \<and> 0x0a \<notin> set (concat [replicate MAX_LINE_BYTES (0x61 :: byte), replicate MAX_LINE_BYTES 0x61])
   \<and> length (concat [replicate MAX_LINE_BYTES (0x61 :: byte), replicate MAX_LINE_BYTES 0x61])
       = 2 * MAX_LINE_BYTES
   \<and> items (lines (foldl (handle_chunk decode_ascii) viewer_80x24
        [replicate MAX_LINE_BYTES 0x61, replicate MAX_LINE_BYTES 0x61]))
       = [replicate MAX_LINE_BYTES 0x61]
   \<and> inbuf (foldl (handle_chunk decode_ascii) viewer_80x24
        [replicate MAX_LINE_BYTES 0x61, replicate MAX_LINE_BYTES 0x61])
       = replicate MAX_LINE_BYTES 0x61
   \<and> (\<exists>pieces.
        lines (handle_chunk decode_ascii viewer_80x24 [0x61, 0x0a, 0x62])
          = append_raw decode_ascii (lines viewer_80x24) (map fst pieces)
        \<and> concat (map glue pieces) @ [0x62] = [0x61, 0x0a, 0x62]
        \<and> pieces_ok pieces [0x62])
   \<and> items (lines (handle_chunk decode_ascii viewer_80x24 [0x61, 0x0a, 0x62])) = [[0x61]]
   \<and> inbuf (handle_chunk decode_ascii viewer_80x24 [0x61, 0x0a, 0x62]) = [0x62]"
proof -
  have v: "inbuf viewer_80x24 = []" "lines viewer_80x24 = deque_new 24"
    by (simp_all add: viewer_80x24_def)
  have line: "decode_ascii (rstrip_cr (replicate MAX_LINE_BYTES 0x61)) = replicate MAX_LINE_BYTES 0x61"
    by (simp add: decode_ascii_def rstrip_cr_def)
  note inst = fragment_never_exceeds_cap [of decode_ascii viewer_80x24 "[0x61, 0x0a, 0x62]" viewer_80x24
      "[replicate MAX_LINE_BYTES 0x61, replicate MAX_LINE_BYTES 0x61]"]
  from inst have pieces: "\<exists>pieces.
        lines (handle_chunk decode_ascii viewer_80x24 [0x61, 0x0a, 0x62])
          = append_raw decode_ascii (lines viewer_80x24) (map fst pieces)
        \<and> concat (map glue pieces) @ [0x62] = [0x61, 0x0a, 0x62]
        \<and> pieces_ok pieces [0x62]"
    by (simp add: small_chunk(2) v(1))
  from inst have scen: "items (lines (foldl (handle_chunk decode_ascii) viewer_80x24
        [replicate MAX_LINE_BYTES 0x61, replicate MAX_LINE_BYTES 0x61]))
       = [replicate MAX_LINE_BYTES 0x61]
   \<and> inbuf (foldl (handle_chunk decode_ascii) viewer_80x24
        [replicate MAX_LINE_BYTES 0x61, replicate MAX_LINE_BYTES 0x61])
       = replicate MAX_LINE_BYTES 0x61"
    by (simp add: v line deque_append_def deque_new_def)
  have hyps: "inbuf viewer_80x24 = []
   \<and> 0x0a \<notin> set (concat [replicate MAX_LINE_BYTES (0x61 :: byte), replicate MAX_LINE_BYTES 0x61])
   \<and> length (concat [replicate MAX_LINE_BYTES (0x61 :: byte), replicate MAX_LINE_BYTES 0x61])
       = 2 * MAX_LINE_BYTES"
    by (simp add: v)
  from hyps scen pieces small_chunk show ?thesis
    by (intro conjI) simp_all
qed

subsection \<open>The tokenizer\<close>

lemma substr_length: "b \<le> length xs \<Longrightarrow> length (substr xs a b) = b - a"
  by (simp add: substr_def)

lemma substr_nth: "b \<le> length xs \<Longrightarrow> k < b - a \<Longrightarrow> substr xs a b ! k = xs ! (a + k)"
  by (simp add: substr_def)

lemma substr_to_end: "substr xs a (length xs) = drop a xs"
  by (simp add: substr_def)

lemma substr_append_drop:
  assumes "a \<le> b" and "b \<le> length xs"
  shows "substr xs a b @ drop b xs = drop a xs"
proof -
  have "drop b xs = drop (b - a) (drop a xs)"
    using assms by simp
  then show ?thesis
    by (metis append_take_drop_id substr_def)
qed

lemma csi_loop_spec:
  assumes "start + 2 \<le> i" and "i \<le> length line"
    and "\<forall>k \<in> {start + 2 ..< i}. \<not> is_final (line ! k)"
  shows "fst (csi_loop line start i) = substr line start (snd (csi_loop line start i))
       \<and> csi_post line start (snd (csi_loop line start i))"
  using assms
proof (induction line start i rule: csi_loop.induct)
  case (1 line start i)
  show ?case
  proof (cases "i < length line")
    case False
    with "1.prems" have i: "i = length line" by simp
    have "csi_loop line start i = (drop start line, length line)"
      using i by (subst csi_loop.simps) simp
    with "1.prems" i show ?thesis
      by (simp add: substr_to_end csi_post_def)
  next
    case True
    show ?thesis
    proof (cases "0x40 \<le> line ! i \<and> line ! i \<le> 0x7e")
      case final: True
      have "csi_loop line start i = (substr line start (i + 1), i + 1)"
        using True final by (subst csi_loop.simps) simp
      with True final "1.prems" show ?thesis
        by (simp add: is_final_def csi_post_def)
    next
      case nonfinal: False
      have inv: "\<forall>k \<in> {start + 2 ..< i + 1}. \<not> is_final (line ! k)"
        using "1.prems"(3) nonfinal by (auto simp: is_final_def less_Suc_eq)
      have step: "csi_loop line start i = csi_loop line start (i + 1)"
        using True nonfinal by (subst csi_loop.simps) auto
      from "1.IH" [OF True nonfinal _ _ inv] True "1.prems"
      show ?thesis
        unfolding step by simp
    qed
  qed
qed

lemma osc_loop_spec:
  assumes "start + 2 \<le> i" and "i \<le> length line"
    and "\<forall>k \<in> {start + 2 ..< i}. \<not> starts_terminator line k"
  shows "fst (osc_loop line start i) = substr line start (snd (osc_loop line start i))
       \<and> osc_post line start (snd (osc_loop line start i))"
  using assms
proof (induction line start i rule: osc_loop.induct)
  case (1 line start i)
  show ?case
  proof (cases "i < length line")
    case False
    with "1.prems" have i: "i = length line" by simp
    have "osc_loop line start i = (drop start line, length line)"
      using i by (subst osc_loop.simps) simp
    with "1.prems" i show ?thesis
      by (simp add: substr_to_end osc_post_def)
  next
    case True
    show ?thesis
    proof (cases "line ! i = 0x07")
      case bell: True
      have "osc_loop line start i = (substr line start (i + 1), i + 1)"
        using True bell by (subst osc_loop.simps) simp
      with True bell "1.prems" show ?thesis
        by (simp add: osc_post_def)
    next
      case nobell: False
      show ?thesis
      proof (cases "line ! i = ESC \<and> i + 1 < length line \<and> line ! (i + 1) = 0x5c")
        case st: True
        have "osc_loop line start i = (substr line start (i + 2), i + 2)"
          using True nobell st by (subst osc_loop.simps) simp
        with st "1.prems" show ?thesis
          by (simp add: osc_post_def)
      next
        case nost: False
        have "\<not> starts_terminator line i"
          using nobell nost by (auto simp: starts_terminator_def)
        then have inv: "\<forall>k \<in> {start + 2 ..< i + 1}. \<not> starts_terminator line k"
          using "1.prems"(3) by (auto simp: less_Suc_eq)
        have step: "osc_loop line start i = osc_loop line start (i + 1)"
          using True nobell nost by (subst osc_loop.simps) auto
        from "1.IH" [OF True nobell nost _ _ inv] True "1.prems"
        show ?thesis
          unfolding step by simp
      qed
    qed
  qed
qed

lemma substr_one: "i < length xs \<Longrightarrow> substr xs i (Suc i) = [xs ! i]"
  by (simp add: substr_def take_Suc_conv_app_nth)

lemma completeI_csi:
  assumes "length seq = l" and "3 \<le> l" and "seq ! 0 = ESC" and "seq ! 1 = 0x5b"
    and "is_final (seq ! (l - 1))"
    and "\<forall>k. 2 \<le> k \<and> k < l - 1 \<longrightarrow> \<not> is_final (seq ! k)"
  shows "complete seq"
  using assms by (auto simp: complete_def Let_def)

lemma completeI_bell:
  assumes "length seq = l" and "3 \<le> l" and "seq ! 0 = ESC" and "seq ! 1 = 0x5d"
    and "seq ! (l - 1) = 0x07"
    and "\<forall>k. 2 \<le> k \<and> k < l - 1 \<longrightarrow> \<not> starts_terminator seq k"
  shows "complete seq"
  using assms by (auto simp: complete_def Let_def)

lemma completeI_st:
  assumes "length seq = l" and "4 \<le> l" and "seq ! 0 = ESC" and "seq ! 1 = 0x5d"
    and "seq ! (l - 2) = ESC" and "seq ! (l - 1) = 0x5c"
    and "\<forall>k. 2 \<le> k \<and> k < l - 2 \<longrightarrow> \<not> starts_terminator seq k"
  shows "complete seq"
  using assms by (auto simp: complete_def Let_def)

lemma completeI_charset:
  assumes "length seq = 3" and "seq ! 0 = ESC" and "seq ! 1 \<in> set [0x28, 0x29, 0x23, 0x25]"
  shows "complete seq"
  using assms by (auto simp: complete_def Let_def)

lemma completeI_other:
  assumes "length seq = 2" and "seq ! 0 = ESC" and "seq ! 1 \<noteq> 0x5b" and "seq ! 1 \<noteq> 0x5d"
    and "seq ! 1 \<notin> set [0x28, 0x29, 0x23, 0x25]"
  shows "complete seq"
  using assms by (auto simp: complete_def Let_def)

lemma cut_shortI_csi:
  assumes "length seq = l" and "2 \<le> l" and "seq ! 0 = ESC" and "seq ! 1 = 0x5b"
    and "\<forall>k. 2 \<le> k \<and> k < l \<longrightarrow> \<not> is_final (seq ! k)"
  shows "cut_short seq"
  using assms by (auto simp: cut_short_def Let_def)

lemma cut_shortI_osc:
  assumes "length seq = l" and "2 \<le> l" and "seq ! 0 = ESC" and "seq ! 1 = 0x5d"
    and "\<forall>k. 2 \<le> k \<and> k < l \<longrightarrow> \<not> starts_terminator seq k"
  shows "cut_short seq"
  using assms by (auto simp: cut_short_def Let_def)

lemma cut_shortI_charset:
  assumes "length seq = 2" and "seq ! 0 = ESC" and "seq ! 1 \<in> set [0x28, 0x29, 0x23, 0x25]"
  shows "cut_short seq"
  using assms by (auto simp: cut_short_def Let_def)

lemma substr_head:
  assumes "start + 2 \<le> e" and "e \<le> length line"
  shows "substr line start e ! 0 = line ! start" and "substr line start e ! 1 = line ! (start + 1)"
  using assms by (simp_all add: substr_nth)

lemma substr_last:
  assumes "start < e" and "e \<le> length line"
  shows "substr line start e ! (e - start - 1) = line ! (e - 1)"
proof -
  have "substr line start e ! (e - start - 1) = line ! (start + (e - start - 1))"
    using assms by (intro substr_nth) simp_all
  also have "start + (e - start - 1) = e - 1" using assms by simp
  finally show ?thesis .
qed

lemma substr_last2:
  assumes "start + 2 \<le> e" and "e \<le> length line"
  shows "substr line start e ! (e - start - 2) = line ! (e - 2)"
proof -
  have "substr line start e ! (e - start - 2) = line ! (start + (e - start - 2))"
    using assms by (intro substr_nth) simp_all
  also have "start + (e - start - 2) = e - 2" using assms by simp
  finally show ?thesis .
qed

lemma starts_terminator_substr:
  assumes "e \<le> length line" and "k < e - start"
    and "starts_terminator (substr line start e) k"
  shows "starts_terminator line (start + k)"
proof -
  have here: "substr line start e ! k = line ! (start + k)"
    using assms(1,2) by (rule substr_nth)
  show ?thesis
  proof (cases "substr line start e ! k = 0x07")
    case True
    with here show ?thesis by (simp add: starts_terminator_def)
  next
    case False
    with assms(3) have st: "substr line start e ! k = ESC"
      "Suc k < length (substr line start e)" "substr line start e ! Suc k = 0x5c"
      by (auto simp: starts_terminator_def)
    from st(2) assms(1) have lt: "Suc k < e - start" by (simp add: substr_length)
    have "substr line start e ! Suc k = line ! (start + Suc k)"
      using assms(1) lt by (rule substr_nth)
    moreover have "Suc (start + k) < length line" using lt assms(1) by linarith
    ultimately show ?thesis
      using st here by (simp add: starts_terminator_def)
  qed
qed

lemma consume_ansi_spec:
  assumes lt: "start < length line" and esc: "line ! start = ESC"
  shows "fst (consume_ansi line start) = substr line start (snd (consume_ansi line start))
       \<and> (complete (fst (consume_ansi line start))
          \<or> (snd (consume_ansi line start) = length line
             \<and> cut_short (fst (consume_ansi line start))))"
proof (cases "start + 1 \<ge> length line")
  case True
  with lt have len: "length line = Suc start" by simp
  have "consume_ansi line start = ([line ! start], start + 1)"
    using True by (simp add: consume_ansi_def)
  with lt esc len substr_one [OF lt] show ?thesis
    by (simp add: cut_short_def)
next
  case False
  then have two: "start + 2 \<le> length line" by simp
  let ?n = "line ! (start + 1)"
  consider (csi) "?n = 0x5b" | (osc) "?n \<noteq> 0x5b" "?n = 0x5d"
    | (charset) "?n \<noteq> 0x5b" "?n \<noteq> 0x5d" "?n \<in> set [0x28, 0x29, 0x23, 0x25]"
    | (other) "?n \<noteq> 0x5b" "?n \<noteq> 0x5d" "?n \<notin> set [0x28, 0x29, 0x23, 0x25]"
    by blast
  then show ?thesis
  proof cases
    case csi
    let ?e = "snd (csi_loop line start (start + 2))"
    let ?seq = "substr line start ?e"
    have eq: "consume_ansi line start = csi_loop line start (start + 2)"
      using False csi by (simp add: consume_ansi_def)
    have idx: "start + 2 \<le> ?e" "?e \<le> length line"
      using csi_loop_index [OF two, of start] by simp_all
    have len: "length ?seq = ?e - start"
      using idx by (simp add: substr_length)
    have h0: "?seq ! 0 = ESC" using substr_head(1) [OF idx] esc by simp
    have h1: "?seq ! 1 = 0x5b" using substr_head(2) [OF idx] csi by simp
    have "\<forall>k \<in> {start + 2 ..< start + 2}. \<not> is_final (line ! k)"
      by simp
    from csi_loop_spec [OF le_refl two this]
    have seq: "fst (csi_loop line start (start + 2)) = ?seq"
      and post: "csi_post line start ?e"
      by simp_all
    from post have alt: "(start + 3 \<le> ?e \<and> is_final (line ! (?e - 1))
         \<and> (\<forall>k \<in> {start + 2 ..< ?e - 1}. \<not> is_final (line ! k)))
      \<or> (?e = length line \<and> (\<forall>k \<in> {start + 2 ..< length line}. \<not> is_final (line ! k)))"
      unfolding csi_post_def set_upt .
    from alt show ?thesis
    proof
      assume a: "start + 3 \<le> ?e \<and> is_final (line ! (?e - 1))
         \<and> (\<forall>k \<in> {start + 2 ..< ?e - 1}. \<not> is_final (line ! k))"
      have "complete ?seq"
      proof (rule completeI_csi [OF len _ h0 h1])
        show "3 \<le> ?e - start" using a by linarith
        show "is_final (?seq ! (?e - start - 1))"
          using substr_last [of start ?e line] idx a by simp
        show "\<forall>k. 2 \<le> k \<and> k < ?e - start - 1 \<longrightarrow> \<not> is_final (?seq ! k)"
        proof (intro allI impI)
          fix k assume "2 \<le> k \<and> k < ?e - start - 1"
          then have k: "2 \<le> k" "k < ?e - start - 1" by blast+
          have "?seq ! k = line ! (start + k)"
            using idx(2) k by (intro substr_nth) linarith+
          moreover have "start + k \<in> {start + 2 ..< ?e - 1}"
            using k by auto
          ultimately show "\<not> is_final (?seq ! k)" using a by simp
        qed
      qed
      then show ?thesis unfolding eq seq by simp
    next
      assume a: "?e = length line
            \<and> (\<forall>k \<in> {start + 2 ..< length line}. \<not> is_final (line ! k))"
      have "cut_short ?seq"
      proof (rule cut_shortI_csi [OF len _ h0 h1])
        show "2 \<le> ?e - start" using idx by linarith
        show "\<forall>k. 2 \<le> k \<and> k < ?e - start \<longrightarrow> \<not> is_final (?seq ! k)"
        proof (intro allI impI)
          fix k assume "2 \<le> k \<and> k < ?e - start"
          then have k: "2 \<le> k" "k < ?e - start" by blast+
          have "?seq ! k = line ! (start + k)"
            using idx k by (intro substr_nth)
          moreover have "start + k \<in> {start + 2 ..< length line}"
            using k idx by auto
          ultimately show "\<not> is_final (?seq ! k)" using a by simp
        qed
      qed
      with a show ?thesis unfolding eq seq by simp
    qed
  next
    case osc
    let ?e = "snd (osc_loop line start (start + 2))"
    let ?seq = "substr line start ?e"
    have eq: "consume_ansi line start = osc_loop line start (start + 2)"
      using False osc by (simp add: consume_ansi_def)
    have idx: "start + 2 \<le> ?e" "?e \<le> length line"
      using osc_loop_index [OF two, of start] by simp_all
    have len: "length ?seq = ?e - start"
      using idx by (simp add: substr_length)
    have h0: "?seq ! 0 = ESC" using substr_head(1) [OF idx] esc by simp
    have h1: "?seq ! 1 = 0x5d" using substr_head(2) [OF idx] osc by simp
    have "\<forall>k \<in> {start + 2 ..< start + 2}. \<not> starts_terminator line k"
      by simp
    from osc_loop_spec [OF le_refl two this]
    have seq: "fst (osc_loop line start (start + 2)) = ?seq"
      and post: "osc_post line start ?e"
      by simp_all
    have none: "\<not> starts_terminator ?seq k"
      if "2 \<le> k" and "k < m - start" and "m \<le> ?e"
        and "\<forall>j \<in> {start + 2 ..< m}. \<not> starts_terminator line j" for k m
    proof
      assume "starts_terminator ?seq k"
      moreover have "k < ?e - start" using that(2,3) by linarith
      ultimately have "starts_terminator line (start + k)"
        using idx(2) by (intro starts_terminator_substr)
      moreover have "start + k \<in> {start + 2 ..< m}" using that(1,2) by auto
      ultimately show False using that(4) by blast
    qed
    from post have alt: "(start + 3 \<le> ?e \<and> line ! (?e - 1) = 0x07
         \<and> (\<forall>k \<in> {start + 2 ..< ?e - 1}. \<not> starts_terminator line k))
      \<or> (start + 4 \<le> ?e \<and> line ! (?e - 2) = ESC \<and> line ! (?e - 1) = 0x5c
         \<and> (\<forall>k \<in> {start + 2 ..< ?e - 2}. \<not> starts_terminator line k))
      \<or> (?e = length line \<and> (\<forall>k \<in> {start + 2 ..< length line}. \<not> starts_terminator line k))"
      unfolding osc_post_def set_upt .
    from alt show ?thesis
    proof (elim disjE)
      assume a: "start + 3 \<le> ?e \<and> line ! (?e - 1) = 0x07
         \<and> (\<forall>k \<in> {start + 2 ..< ?e - 1}. \<not> starts_terminator line k)"
      have "complete ?seq"
      proof (rule completeI_bell [OF len _ h0 h1])
        show "3 \<le> ?e - start" using a by linarith
        show "?seq ! (?e - start - 1) = 0x07"
          using substr_last [of start ?e line] idx a by simp
        show "\<forall>k. 2 \<le> k \<and> k < ?e - start - 1 \<longrightarrow> \<not> starts_terminator ?seq k"
        proof (intro allI impI)
          fix k assume "2 \<le> k \<and> k < ?e - start - 1"
          then have "2 \<le> k" "k < (?e - 1) - start" by auto
          then show "\<not> starts_terminator ?seq k"
            using a by (intro none [of k "?e - 1"]) auto
        qed
      qed
      then show ?thesis unfolding eq seq by simp
    next
      assume a: "start + 4 \<le> ?e \<and> line ! (?e - 2) = ESC \<and> line ! (?e - 1) = 0x5c
         \<and> (\<forall>k \<in> {start + 2 ..< ?e - 2}. \<not> starts_terminator line k)"
      have "complete ?seq"
      proof (rule completeI_st [OF len _ h0 h1])
        show "4 \<le> ?e - start" using a by linarith
        show "?seq ! (?e - start - 2) = ESC"
          using substr_last2 [OF idx] a by simp
        show "?seq ! (?e - start - 1) = 0x5c"
          using substr_last [of start ?e line] idx a by simp
        show "\<forall>k. 2 \<le> k \<and> k < ?e - start - 2 \<longrightarrow> \<not> starts_terminator ?seq k"
        proof (intro allI impI)
          fix k assume "2 \<le> k \<and> k < ?e - start - 2"
          then have "2 \<le> k" "k < (?e - 2) - start" by auto
          then show "\<not> starts_terminator ?seq k"
            using a by (intro none [of k "?e - 2"]) auto
        qed
      qed
      then show ?thesis unfolding eq seq by simp
    next
      assume a: "?e = length line
            \<and> (\<forall>k \<in> {start + 2 ..< length line}. \<not> starts_terminator line k)"
      have "cut_short ?seq"
      proof (rule cut_shortI_osc [OF len _ h0 h1])
        show "2 \<le> ?e - start" using idx by linarith
        show "\<forall>k. 2 \<le> k \<and> k < ?e - start \<longrightarrow> \<not> starts_terminator ?seq k"
        proof (intro allI impI)
          fix k assume "2 \<le> k \<and> k < ?e - start"
          then have "2 \<le> k" "k < ?e - start" by auto
          then show "\<not> starts_terminator ?seq k"
            using a by (intro none [of k ?e]) auto
        qed
      qed
      with a show ?thesis unfolding eq seq by simp
    qed
  next
    case charset
    show ?thesis
    proof (cases "start + 2 < length line")
      case True
      then have eq: "consume_ansi line start = (substr line start (start + 3), start + 3)"
        using False charset by (simp add: consume_ansi_def)
      have idx: "start + 2 \<le> start + 3" "start + 3 \<le> length line" using True by simp_all
      have "complete (substr line start (start + 3))"
      proof (rule completeI_charset)
        show "length (substr line start (start + 3)) = 3" using idx by (simp add: substr_length)
        show "substr line start (start + 3) ! 0 = ESC" using substr_head(1) [OF idx] esc by simp
        show "substr line start (start + 3) ! 1 \<in> set [0x28, 0x29, 0x23, 0x25]"
          using substr_head(2) [OF idx] charset by simp
      qed
      then show ?thesis by (simp add: eq)
    next
      case short: False
      with two have len: "length line = start + 2" by simp
      have eq: "consume_ansi line start = (drop start line, length line)"
        using False short charset by (simp add: consume_ansi_def)
      have idx: "start + 2 \<le> length line" "length line \<le> length line" using two by simp_all
      have "cut_short (substr line start (length line))"
      proof (rule cut_shortI_charset)
        show "length (substr line start (length line)) = 2" using len by (simp add: substr_length)
        show "substr line start (length line) ! 0 = ESC" using substr_head(1) [OF idx] esc by simp
        show "substr line start (length line) ! 1 \<in> set [0x28, 0x29, 0x23, 0x25]"
          using substr_head(2) [OF idx] charset by simp
      qed
      then show ?thesis by (simp add: eq substr_to_end)
    qed
  next
    case other
    have eq: "consume_ansi line start = (substr line start (start + 2), start + 2)"
      using False other by (simp add: consume_ansi_def)
    have idx: "start + 2 \<le> start + 2" "start + 2 \<le> length line" using two by simp_all
    have "complete (substr line start (start + 2))"
    proof (rule completeI_other)
      show "length (substr line start (start + 2)) = 2" using idx by (simp add: substr_length)
      show "substr line start (start + 2) ! 0 = ESC" using substr_head(1) [OF idx] esc by simp
      show "substr line start (start + 2) ! 1 \<noteq> 0x5b" using substr_head(2) [OF idx] other by simp
      show "substr line start (start + 2) ! 1 \<noteq> 0x5d" using substr_head(2) [OF idx] other by simp
      show "substr line start (start + 2) ! 1 \<notin> set [0x28, 0x29, 0x23, 0x25]"
        using substr_head(2) [OF idx] other by simp
    qed
    then show ?thesis by (simp add: eq)
  qed
qed

lemma iter_tokens_from_concat:
  "i \<le> length line \<Longrightarrow> concat (map raw (iter_tokens_from line i)) = drop i line"
proof (induction line i rule: iter_tokens_from.induct)
  case (1 line i)
  show ?case
  proof (cases "i < length line")
    case False
    with "1.prems" show ?thesis
      by (subst iter_tokens_from.simps) simp
  next
    case True
    show ?thesis
    proof (cases "line ! i = ESC")
      case esc: True
      let ?e = "snd (consume_ansi line i)"
      have idx: "i < ?e" "?e \<le> length line"
        using consume_ansi_index [OF True] by simp_all
      have seq: "fst (consume_ansi line i) = substr line i ?e"
        using consume_ansi_spec [OF True esc] by simp
      have "concat (map raw (iter_tokens_from line i))
          = substr line i ?e @ concat (map raw (iter_tokens_from line ?e))"
        using True esc by (subst iter_tokens_from.simps) (simp add: seq)
      also have "\<dots> = substr line i ?e @ drop ?e line"
        using "1.IH"(1) [OF True esc idx(2)] by simp
      also have "\<dots> = drop i line"
        using idx by (intro substr_append_drop) simp_all
      finally show ?thesis .
    next
      case chr: False
      have "concat (map raw (iter_tokens_from line i))
          = line ! i # concat (map raw (iter_tokens_from line (i + 1)))"
        using True chr by (subst iter_tokens_from.simps) simp
      also have "\<dots> = line ! i # drop (i + 1) line"
        using "1.IH"(2) [OF True chr] True by simp
      also have "\<dots> = drop i line"
        using True by (simp add: Cons_nth_drop_Suc)
      finally show ?thesis .
    qed
  qed
qed

lemma iter_tokens_from_whole:
  "i \<le> length line \<Longrightarrow> whole_escapes (iter_tokens_from line i)"
proof (induction line i rule: iter_tokens_from.induct)
  case (1 line i)
  show ?case
  proof (cases "i < length line")
    case False
    then show ?thesis
      by (subst iter_tokens_from.simps) simp
  next
    case True
    show ?thesis
    proof (cases "line ! i = ESC")
      case esc: True
      let ?e = "snd (consume_ansi line i)"
      have idx: "?e \<le> length line"
        using consume_ansi_index [OF True] by simp
      have last: "iter_tokens_from line (length line) = []"
        by (subst iter_tokens_from.simps) simp
      from consume_ansi_spec [OF True esc] last
      have "complete (fst (consume_ansi line i))
          \<or> (iter_tokens_from line ?e = [] \<and> cut_short (fst (consume_ansi line i)))"
        by auto
      with "1.IH"(1) [OF True esc idx] True esc show ?thesis
        by (subst iter_tokens_from.simps) simp
    next
      case chr: False
      with "1.IH"(2) [OF True chr] True show ?thesis
        by (subst iter_tokens_from.simps) simp
    qed
  qed
qed

lemma whole_escapes_at: "whole_escapes (pre @ t # rest) \<Longrightarrow> well_cut t rest"
  by (induction pre) simp_all

lemma mixed_line_tokens: "iter_tokens mixed_line
     = [Ansi (ESC # str '']0;t'' @ [ESC, 0x5c]), Chr 0x61, Ansi (ESC # str ''(B'')]
       @ Ansi (ESC # str ''[3'') # []"
    by code_simp
lemma cut_csi_not_complete: "\<not> complete (ESC # str ''[3'')"
  by (simp add: complete_def ESC_def str_def is_final_def Let_def)
lemma osc_complete: "complete (ESC # str '']0;t'' @ [ESC, 0x5c])"
  by (simp add: complete_def ESC_def str_def starts_terminator_def Let_def)
lemma charset_complete: "complete (ESC # str ''(B'')"
  by (simp add: complete_def ESC_def str_def Let_def)
lemma hello_world_not_complete: "\<not> complete hello_world"
  by (simp add: complete_def hello_world_def ESC_def str_def is_final_def Let_def)


text \<open>
  Claim C5: the raw texts of the tokens, concatenated in order, are the line; no character
  token is the escape character, so every escape character of the line starts an escape
  token or lies inside one; and an escape token is exactly one whole escape sequence, ended
  by the first terminator of its form, unless it is the last token of the line and has no
  terminator in it: a token is cut short only where the line is.
\<close>

theorem tokens_cover_line:
  "concat (map raw (iter_tokens line)) = line
   \<and> (\<forall>pre t rest. iter_tokens line = pre @ t # rest \<longrightarrow>
        (case t of
           Chr c \<Rightarrow> c \<noteq> ESC
         | Ansi seq \<Rightarrow> complete seq \<or> (rest = [] \<and> cut_short seq)))"
proof (intro conjI allI impI)
  show "concat (map raw (iter_tokens line)) = line"
    using iter_tokens_from_concat [of 0 line] by (simp add: iter_tokens_def)
next
  fix pre t rest
  assume "iter_tokens line = pre @ t # rest"
  with iter_tokens_from_whole [of 0 line]
  have "whole_escapes (pre @ t # rest)"
    by (simp add: iter_tokens_def)
  then have "well_cut t rest"
    by (rule whole_escapes_at)
  then show "case t of Chr c \<Rightarrow> c \<noteq> ESC
    | Ansi seq \<Rightarrow> complete seq \<or> (rest = [] \<and> cut_short seq)"
    by (cases t) simp_all
qed

theorem tokens_cover_line_witness:
  "iter_tokens mixed_line
     = [Ansi (ESC # str '']0;t'' @ [ESC, 0x5c]), Chr 0x61, Ansi (ESC # str ''(B'')]
       @ Ansi (ESC # str ''[3'') # []
   \<and> concat (map raw (iter_tokens mixed_line)) = mixed_line
   \<and> complete (ESC # str '']0;t'' @ [ESC, 0x5c])
   \<and> complete (ESC # str ''(B'')
   \<and> \<not> complete (ESC # str ''[3'')
   \<and> cut_short (ESC # str ''[3'')
   \<and> \<not> complete hello_world"
proof -
  note all = tokens_cover_line [of mixed_line]
  from all have cat: "concat (map raw (iter_tokens mixed_line)) = mixed_line"
    by (rule conjunct1)
  from all have "\<forall>pre t rest. iter_tokens mixed_line = pre @ t # rest \<longrightarrow>
        (case t of
           Chr c \<Rightarrow> c \<noteq> ESC
         | Ansi seq \<Rightarrow> complete seq \<or> (rest = [] \<and> cut_short seq))"
    by (rule conjunct2)
  from this [rule_format, OF mixed_line_tokens]
  have "complete (ESC # str ''[3'') \<or> cut_short (ESC # str ''[3'')"
    by simp
  with cut_csi_not_complete have "cut_short (ESC # str ''[3'')" by simp
  with mixed_line_tokens cat cut_csi_not_complete osc_complete charset_complete
    hello_world_not_complete show ?thesis
    by (intro conjI)
qed

subsection \<open>The slicer\<close>

lemma char_width_nonneg: "0 \<le> char_width env c"
  by (simp add: char_width_def Let_def split: option.splits)

lemma slice_loop_started:
  "started s \<Longrightarrow> started (slice_loop env start_col width ts s)
     \<and> (\<exists>more. out (slice_loop env start_col width ts s) = out s @ more)"
proof (induction ts arbitrary: s)
  case Nil
  then show ?case by simp
next
  case (Cons t ts)
  show ?case
  proof (cases t)
    case (Ansi seq)
    with Cons.prems Cons.IH [of "s\<lparr>out := out s @ [seq]\<rparr>"] show ?thesis
      by auto
  next
    case (Chr c)
    let ?w = "char_width env c"
    show ?thesis
    proof (cases "?w \<le> 0")
      case True
      with Chr Cons.prems Cons.IH [of "s\<lparr>out := out s @ [[c]]\<rparr>"] show ?thesis
        by auto
    next
      case pos: False
      show ?thesis
      proof (cases "pos s + ?w \<le> start_col")
        case True
        with pos Chr Cons.prems Cons.IH [of "s\<lparr>pos := pos s + ?w\<rparr>"] show ?thesis
          by auto
      next
        case False
        let ?s' = "emit_char c ?w (start_window s)"
        have s': "started ?s'" "out ?s' = out s @ [[c]]"
          using Cons.prems by (simp_all add: emit_char_def start_window_def)
        show ?thesis
        proof (cases "visible ?s' \<ge> width")
          case True
          with False pos Chr s' show ?thesis by (simp add: Let_def)
        next
          case more: False
          with False pos Chr s' Cons.IH [of ?s'] show ?thesis by (auto simp: Let_def)
        qed
      qed
    qed
  qed
qed

lemma slice_loop_skipped:
  "\<not> started s \<Longrightarrow> skipped env start_col (pos s) pre \<Longrightarrow>
   slice_loop env start_col width (pre @ ts) s
     = slice_loop env start_col width ts
         (s\<lparr>pos := pos s + tokens_width env pre, prefix := prefix s @ escapes pre\<rparr>)"
proof (induction pre arbitrary: s)
  case Nil
  then show ?case by simp
next
  case (Cons t pre)
  show ?case
  proof (cases t)
    case (Ansi seq)
    with Cons.prems Cons.IH [of "s\<lparr>prefix := prefix s @ seq\<rparr>"] show ?thesis
      by simp
  next
    case (Chr c)
    show ?thesis
    proof (cases "char_width env c \<le> 0")
      case True
      with char_width_nonneg [of env c] have "char_width env c = 0" by simp
      with Chr Cons.prems Cons.IH [of s] show ?thesis
        by simp
    next
      case False
      with Chr Cons.prems Cons.IH [of "s\<lparr>pos := pos s + char_width env c\<rparr>"] show ?thesis
        by (simp add: Let_def add.assoc)
    qed
  qed
qed


lemma slice_loop_started_iff:
  "\<not> started s \<Longrightarrow> pos s \<le> start_col \<Longrightarrow> 0 < width \<Longrightarrow>
   started (slice_loop env start_col width ts s)
     = in_window env start_col (start_col + width) (pos s) ts"
proof (induction ts arbitrary: s)
  case Nil
  then show ?case by simp
next
  case (Cons t ts)
  show ?case
  proof (cases t)
    case (Ansi seq)
    with Cons.prems Cons.IH [of "s\<lparr>prefix := prefix s @ seq\<rparr>"] show ?thesis
      by simp
  next
    case (Chr c)
    let ?w = "char_width env c"
    show ?thesis
    proof (cases "?w \<le> 0")
      case True
      with Chr Cons.prems Cons.IH [of s] show ?thesis
        by simp
    next
      case wide: False
      show ?thesis
      proof (cases "pos s + ?w \<le> start_col")
        case True
        with wide Chr Cons.prems Cons.IH [of "s\<lparr>pos := pos s + ?w\<rparr>"] show ?thesis
          by (simp add: Let_def)
      next
        case False
        let ?s' = "emit_char c ?w (start_window s)"
        have s': "started ?s'"
          by (simp add: emit_char_def start_window_def)
        have "started (slice_loop env start_col width (t # ts) s)"
          using False wide Chr s' slice_loop_started [OF s', of env start_col width ts]
          by (simp add: Let_def)
        moreover have "in_window env start_col (start_col + width) (pos s) (t # ts)"
          using False wide Chr Cons.prems by (simp add: Let_def)
        ultimately show ?thesis by simp
      qed
    qed
  qed
qed

lemma wide_tokens: "iter_tokens [0x4e00, 0x61] = [Chr 0x4e00, Chr 0x61]"
  by (simp add: iter_tokens_def iter_tokens_from.simps ESC_def)

lemma wide_width: "char_width sample_env 0x4e00 = 2"
  by (simp add: char_width_def sample_env_def)

lemma a_width: "char_width sample_env 0x61 = 1"
  by (simp add: char_width_def sample_env_def ascii_category_def)

lemma accent_tokens:
  "iter_tokens [0x61, 0x301, 0x62] = [Chr 0x61] @ Chr 0x301 # [Chr 0x62]"
  "iter_tokens [0x61, 0x62] = [Chr 0x61] @ [Chr 0x62]"
  by (simp_all add: iter_tokens_def iter_tokens_from.simps ESC_def)

lemma accent_width: "char_width sample_env 0x301 = 0"
  by (simp add: char_width_def sample_env_def)

lemma b_width: "char_width sample_env 0x62 = 1"
  by (simp add: char_width_def sample_env_def ascii_category_def)

text \<open>
  Claim C3, for a start column that is a column (not negative): the result is empty when
  the width is not positive or no character of positive width has a column in the window
  from \<open>start_col\<close> to \<open>start_col + width\<close>; otherwise it is not empty and ends with the
  reset sequence.
\<close>

theorem slice_empty_or_reset:
  assumes "0 \<le> start_col"
  shows "(width \<le> 0 \<or> \<not> in_window env start_col (start_col + width) 0 (iter_tokens line)
            \<longrightarrow> slice_ansi env line start_col width = [])
       \<and> (0 < width \<and> in_window env start_col (start_col + width) 0 (iter_tokens line)
            \<longrightarrow> slice_ansi env line start_col width \<noteq> []
              \<and> (\<exists>body. slice_ansi env line start_col width = body @ reset))"
proof (cases "width \<le> 0")
  case True
  then show ?thesis by (simp add: slice_ansi_def)
next
  case False
  then have w: "0 < width" by simp
  let ?s = "slice_loop env start_col width (iter_tokens line) slice_init"
  have "started ?s = in_window env start_col (start_col + width) (pos slice_init) (iter_tokens line)"
    using assms w by (intro slice_loop_started_iff) (simp_all add: slice_init_def)
  then have iff: "started ?s = in_window env start_col (start_col + width) 0 (iter_tokens line)"
    by (simp add: slice_init_def)
  have "reset \<noteq> []" by (simp add: reset_def)
  with iff False show ?thesis
    by (auto simp: slice_ansi_def Let_def)
qed

theorem slice_empty_or_reset_witness:
  "(0::int) \<le> 6
   \<and> in_window sample_env 6 (6 + 5) 0 (iter_tokens hello_world)
   \<and> slice_ansi sample_env hello_world 6 5 \<noteq> []
   \<and> (\<exists>body. slice_ansi sample_env hello_world 6 5 = body @ reset)
   \<and> \<not> in_window sample_env 20 (20 + 5) 0 (iter_tokens hello_world)
   \<and> slice_ansi sample_env hello_world 20 5 = []
   \<and> slice_ansi sample_env hello_world 6 0 = []"
proof -
  have inside: "in_window sample_env 6 (6 + 5) 0 (iter_tokens hello_world)"
    by code_simp
  have outside: "\<not> in_window sample_env 20 (20 + 5) 0 (iter_tokens hello_world)"
    by code_simp
  from slice_empty_or_reset [of 6 5 sample_env hello_world]
    slice_empty_or_reset [of 20 5 sample_env hello_world]
    slice_empty_or_reset [of 6 0 sample_env hello_world]
    inside outside
  show ?thesis by simp
qed

text \<open>
  Claim C4, as the program has it: the first character written is the first character of
  positive width whose end column \<open>pos + w\<close> exceeds the start column; the characters
  before it, which all end at or before the start column, are left out, and the escape
  sequences before it are written in front of it, in order.
\<close>

theorem window_starts_at_first_overlap:
  assumes "0 < width"
    and "iter_tokens line = pre @ Chr c # rest"
    and "skipped env start_col 0 pre"
    and "0 < char_width env c"
    and "start_col < tokens_width env pre + char_width env c"
  shows "\<exists>tail. slice_ansi env line start_col width = escapes pre @ c # tail"
proof -
  let ?w = "char_width env c"
  let ?s1 = "slice_init\<lparr>pos := pos slice_init + tokens_width env pre,
                          prefix := prefix slice_init @ escapes pre\<rparr>"
  let ?s' = "emit_char c ?w (start_window ?s1)"
  let ?s = "slice_loop env start_col width (iter_tokens line) slice_init"
  have "?s = slice_loop env start_col width (Chr c # rest) ?s1"
    unfolding assms(2) using assms(3)
    by (intro slice_loop_skipped) (simp_all add: slice_init_def)
  also have "\<dots> = (if visible ?s' \<ge> width then ?s' else slice_loop env start_col width rest ?s')"
    using assms(4,5) by (simp add: Let_def slice_init_def)
  finally have s: "?s = (if visible ?s' \<ge> width then ?s' else slice_loop env start_col width rest ?s')" .
  have s': "started ?s'" "concat (out ?s') = escapes pre @ [c]"
    by (simp_all add: emit_char_def start_window_def slice_init_def)
  from slice_loop_started [OF s'(1), of env start_col width rest]
  obtain more where more: "started (slice_loop env start_col width rest ?s')"
    "out (slice_loop env start_col width rest ?s') = out ?s' @ more"
    by blast
  have "started ?s \<and> (\<exists>more. out ?s = out ?s' @ more)"
    unfolding s using s'(1) more by simp
  then obtain more' where st: "started ?s" and out: "out ?s = out ?s' @ more'"
    by blast
  have "slice_ansi env line start_col width = concat (out ?s @ [reset])"
    using assms(1) st by (simp add: slice_ansi_def Let_def)
  also have "\<dots> = escapes pre @ c # (concat more' @ reset)"
    unfolding out using s'(2) by simp
  finally show ?thesis by blast
qed

theorem window_starts_at_first_overlap_witness:
  "(0::int) < 5
   \<and> iter_tokens hello_world
       = [Ansi (ESC # str ''[31m''), Chr 0x48, Chr 0x45, Chr 0x4c, Chr 0x4c, Chr 0x4f,
          Ansi (ESC # str ''[0m''), Chr 0x20]
         @ Chr 0x57 # [Chr 0x4f, Chr 0x52, Chr 0x4c, Chr 0x44]
   \<and> skipped sample_env 6 0
         [Ansi (ESC # str ''[31m''), Chr 0x48, Chr 0x45, Chr 0x4c, Chr 0x4c, Chr 0x4f,
          Ansi (ESC # str ''[0m''), Chr 0x20]
   \<and> 0 < char_width sample_env 0x57
   \<and> (\<exists>tail. slice_ansi sample_env hello_world 6 5
          = (ESC # str ''[31m'' @ ESC # str ''[0m'') @ 0x57 # tail)"
proof -
  let ?pre = "[Ansi (ESC # str ''[31m''), Chr 0x48, Chr 0x45, Chr 0x4c, Chr 0x4c, Chr 0x4f,
          Ansi (ESC # str ''[0m''), Chr 0x20]"
  have toks: "iter_tokens hello_world = ?pre @ Chr 0x57 # [Chr 0x4f, Chr 0x52, Chr 0x4c, Chr 0x44]"
    by code_simp
  have sk: "skipped sample_env 6 0 ?pre" by code_simp
  have w: "0 < char_width sample_env 0x57" by code_simp
  have tw: "6 < tokens_width sample_env ?pre + char_width sample_env 0x57" by code_simp
  have esc: "escapes ?pre = ESC # str ''[31m'' @ ESC # str ''[0m''" by simp
  from window_starts_at_first_overlap [of 5 hello_world ?pre "0x57" _ sample_env 6, OF _ toks sk w tw]
  have "\<exists>tail. slice_ansi sample_env hello_world 6 5 = escapes ?pre @ 0x57 # tail"
    by simp
  with toks sk w show ?thesis
    unfolding esc by simp
qed

text \<open>
  The claim as it is written, with the position \<open>pos\<close> compared to the start column, fails
  on a wide character that straddles the start column: in the line of U+4E00 and \<^verbatim>\<open>a\<close>, the
  ideograph is at position 0, below the start column 1, and is written all the same, in
  front of the \<^verbatim>\<open>a\<close>, the first character at a position from 1 on.
\<close>

theorem wide_char_straddles_start_counterexample:
  "iter_tokens [0x4e00, 0x61] = [Chr 0x4e00, Chr 0x61]
   \<and> char_width sample_env 0x4e00 = 2
   \<and> tokens_width sample_env [] = 0
   \<and> slice_ansi sample_env [0x4e00, 0x61] 1 5 = [0x4e00, 0x61] @ reset"
  by (simp add: wide_tokens wide_width a_width slice_ansi_def slice_init_def start_window_def
      emit_char_def Let_def)

text \<open>
  Claim C10: a character of width zero met before the window has started leaves no trace
  in the result: the line without it has the same slice.
\<close>

theorem zero_width_before_window_dropped:
  assumes "iter_tokens line = pre @ Chr z # rest"
    and "iter_tokens line' = pre @ rest"
    and "skipped env start_col 0 pre"
    and "char_width env z \<le> 0"
  shows "slice_ansi env line start_col width = slice_ansi env line' start_col width"
proof -
  let ?s1 = "slice_init\<lparr>pos := pos slice_init + tokens_width env pre,
                          prefix := prefix slice_init @ escapes pre\<rparr>"
  have a: "slice_loop env start_col width (pre @ Chr z # rest) slice_init
      = slice_loop env start_col width (Chr z # rest) ?s1"
    using assms(3) by (intro slice_loop_skipped) (simp_all add: slice_init_def)
  have b: "slice_loop env start_col width (pre @ rest) slice_init
      = slice_loop env start_col width rest ?s1"
    using assms(3) by (intro slice_loop_skipped) (simp_all add: slice_init_def)
  have "slice_loop env start_col width (Chr z # rest) ?s1 = slice_loop env start_col width rest ?s1"
    using assms(4) by (simp add: slice_init_def)
  with a b show ?thesis
    by (simp add: slice_ansi_def assms(1,2))
qed

theorem zero_width_before_window_dropped_witness:
  "iter_tokens [0x61, 0x301, 0x62] = [Chr 0x61] @ Chr 0x301 # [Chr 0x62]
   \<and> iter_tokens [0x61, 0x62] = [Chr 0x61] @ [Chr 0x62]
   \<and> skipped sample_env 1 0 [Chr 0x61]
   \<and> char_width sample_env 0x301 \<le> 0
   \<and> slice_ansi sample_env [0x61, 0x301, 0x62] 1 1 = [0x62] @ reset"
proof -
  note toks = accent_tokens(1) and toks' = accent_tokens(2)
  have sk: "skipped sample_env 1 0 [Chr 0x61]" by (simp add: a_width)
  have z: "char_width sample_env 0x301 \<le> 0" by (simp add: accent_width)
  have plain: "slice_ansi sample_env [0x61, 0x62] 1 1 = [0x62] @ reset"
    by (simp add: toks' a_width b_width slice_ansi_def slice_init_def start_window_def
      emit_char_def Let_def)
  from zero_width_before_window_dropped [OF toks toks' sk z, of 1] plain toks toks' sk z
  show ?thesis by simp
qed

subsection \<open>The visible width of printable ASCII\<close>

lemma iter_tokens_from_plain:
  "ESC \<notin> set line \<Longrightarrow> iter_tokens_from line i = map Chr (drop i line)"
proof (induction line i rule: iter_tokens_from.induct)
  case (1 line i)
  show ?case
  proof (cases "i < length line")
    case False
    then show ?thesis by (subst iter_tokens_from.simps) simp
  next
    case True
    then have "line ! i \<in> set line" by simp
    with "1.prems" have ne: "line ! i \<noteq> ESC" by metis
    have "drop i line = line ! i # drop (Suc i) line"
      using True by (simp add: Cons_nth_drop_Suc)
    with "1.IH"(2) [OF True ne "1.prems"] True ne show ?thesis
      by (subst iter_tokens_from.simps) simp
  qed
qed

lemma visible_loop_ascii:
  assumes "ascii_ok env"
  shows "\<forall>c \<in> set cs. 0x20 \<le> c \<and> c \<le> 0x7e \<Longrightarrow>
         visible_loop env (map Chr cs) acc = acc + int (length cs)"
proof (induction cs arbitrary: acc)
  case Nil
  show ?case by simp
next
  case (Cons c cs)
  then have "char_width env c = 1"
    using assms by (intro char_width_ascii) simp_all
  with Cons show ?case by simp
qed

text \<open>
  Claim C9: a line of printable ASCII characters, U+0020 to U+007E (so with no escape
  character in it), has a visible width equal to its length, whatever width tables the
  program runs with, as long as they give printable ASCII one column.
\<close>

theorem ascii_width_is_length:
  assumes "ascii_ok env" and "\<forall>c \<in> set line. 0x20 \<le> c \<and> c \<le> 0x7e"
  shows "visible_width env line = int (length line)"
proof -
  have "ESC \<notin> set line"
    using assms(2) by (auto simp: ESC_def)
  then have "iter_tokens line = map Chr line"
    using iter_tokens_from_plain [of line 0] by (simp add: iter_tokens_def)
  with visible_loop_ascii [OF assms, of 0] show ?thesis
    by (simp add: visible_width_def)
qed

theorem ascii_width_is_length_witness:
  "ascii_ok sample_env
   \<and> list_all (\<lambda>c. 0x20 \<le> c \<and> c \<le> 0x7e) (str ''GET /index.html 200'')
   \<and> visible_width sample_env (str ''GET /index.html 200'') = 19"
proof -
  have ok: "ascii_ok sample_env" by code_simp
  have all: "\<forall>c \<in> set (str ''GET /index.html 200''). 0x20 \<le> c \<and> c \<le> 0x7e"
    by (simp add: str_def)
  from ascii_width_is_length [OF ok all] ok all show ?thesis
    by (simp add: list_all_iff) (simp add: str_def)
qed

end
